theory Spec2Isabelle
  imports Complex_Main "HOL-Library.Word"
begin

unbundle bit_operations_syntax

section \<open>Conventions of the embedding\<close>

text \<open>
  The repository is five C programs for acoustic impulse-response measurement.
  The embedding follows the C text function by function and loop by loop.

  \<^item> \<^verbatim>\<open>int16_t\<close> is \<open>16 word\<close>, read with \<open>sint\<close>.
  \<^item> \<^verbatim>\<open>double\<close> is \<open>real\<close> and \<^verbatim>\<open>double complex\<close> is \<open>complex\<close>: arithmetic is exact,
    there is no rounding, no overflow, no infinity and no NaN. Where the C text can
    leave the finite numbers (a division by zero) the model returns the fault
    \<open>NotFinite\<close> instead of HOL's \<open>x / 0 = 0\<close>. A conversion of a double to
    \<^verbatim>\<open>int16_t\<close> truncates towards zero; when the truncated value does not fit, C
    leaves the behaviour undefined and the model returns \<open>NotRepresentable\<close>.
  \<^item> \<^verbatim>\<open>int\<close> lengths and indices are \<open>nat\<close> or \<open>int\<close> without wrap-around; the
    lengths come from a 32-bit byte count halved, so they stay below \<open>2 ^ 30\<close>.
  \<^item> A C array is a list; a store is \<open>xs[i := v]\<close>, a load is \<open>xs ! i\<close>. A buffer
    obtained from \<^verbatim>\<open>malloc\<close> is a parameter holding arbitrary initial contents; one
    obtained from \<^verbatim>\<open>calloc\<close> is \<open>replicate n 0\<close>. An access past the end of a buffer
    is the fault \<open>OutOfBounds\<close>.
  \<^item> A \<^verbatim>\<open>for\<close> loop is a recursive function over its loop variable.
  \<^item> \<^verbatim>\<open>M_PI\<close> is \<open>pi\<close>; \<^verbatim>\<open>log10\<close> is \<open>log 10\<close>; \<^verbatim>\<open>cabs\<close>, \<^verbatim>\<open>creal\<close> and \<^verbatim>\<open>conj\<close> are \<open>cmod\<close>,
    \<open>Re\<close> and \<open>cnj\<close>.
\<close>

type_synonym int16 = "16 word"

datatype fault = OutOfBounds | NotFinite | NotRepresentable

section \<open>ir\_analyze.c: Schroeder integration and decay time\<close>

subsection \<open>schroeder\_integral\<close>

text \<open>
  First loop of \<^verbatim>\<open>schroeder_integral\<close>, \<^verbatim>\<open>for (int i = len - 1; i >= 0; i--)\<close>.
  The counter \<open>Suc i\<close> says that index \<open>i\<close> is the next one visited.
\<close>

fun schroeder_energy :: "int16 list \<Rightarrow> nat \<Rightarrow> real \<Rightarrow> real list \<Rightarrow> real list" where
  "schroeder_energy ir 0 sum0 decay_curve = decay_curve"
| "schroeder_energy ir (Suc i) sum0 decay_curve =
     (let sample = real_of_int (sint (ir ! i)) / 32768;
          sum1 = sum0 + sample * sample
      in schroeder_energy ir i sum1 (decay_curve[i := sum1]))"

text \<open>Second loop, \<^verbatim>\<open>for (int i = 0; i < len; i++)\<close>, run only when \<^verbatim>\<open>max_energy > 0\<close>.\<close>

function schroeder_db :: "real \<Rightarrow> nat \<Rightarrow> nat \<Rightarrow> real list \<Rightarrow> real list" where
  "schroeder_db max_energy i len decay_curve =
     (if i < len then
        schroeder_db max_energy (Suc i) len
          (decay_curve[i := (if decay_curve ! i > 0
                             then 10 * log 10 (decay_curve ! i / max_energy)
                             else - 100)])
      else decay_curve)"
  by pat_completeness auto
termination
  by (relation "measure (\<lambda>(m, i, len, dc). len - i)") auto

declare schroeder_db.simps [simp del]

text \<open>
  \<^verbatim>\<open>void schroeder_integral(int16_t *ir, int len, double *decay_curve)\<close>.
  \<open>decay_curve\<close> is the caller's buffer with its initial contents. The function
  reads \<^verbatim>\<open>decay_curve[0]\<close> whatever \<open>len\<close> is, so an empty buffer is a fault.
\<close>

definition schroeder_integral :: "int16 list \<Rightarrow> nat \<Rightarrow> real list \<Rightarrow> fault + real list" where
  "schroeder_integral ir len decay_curve =
     (if length ir < len \<or> length decay_curve < len \<or> decay_curve = [] then Inl OutOfBounds
      else
        let energy = schroeder_energy ir len 0 decay_curve;
            max_energy = energy ! 0
        in if max_energy > 0 then Inr (schroeder_db max_energy 0 len energy)
           else Inr energy)"

subsection \<open>calculate\_decay\_time\<close>

text \<open>
  The scan \<^verbatim>\<open>for (int i = 0; i < len; i++)\<close> with its \<^verbatim>\<open>break\<close>. It returns
  \<open>(start_idx, end_idx)\<close>; \<open>end_idx\<close> is still \<open>-1\<close> when the loop runs to \<open>len\<close>.
\<close>

function decay_scan ::
  "real list \<Rightarrow> nat \<Rightarrow> nat \<Rightarrow> real \<Rightarrow> real \<Rightarrow> int \<Rightarrow> fault + (int \<times> int)" where
  "decay_scan decay_curve i len start_db end_db start_idx =
     (if i < len then
        if length decay_curve \<le> i then Inl OutOfBounds
        else
          let start_idx' =
                (if start_idx < 0 \<and> decay_curve ! i \<le> start_db \<and> decay_curve ! i \<ge> end_db
                 then int i else start_idx)
          in if decay_curve ! i \<le> end_db then Inr (start_idx', int i)
             else decay_scan decay_curve (Suc i) len start_db end_db start_idx'
      else Inr (start_idx, - 1))"
  by pat_completeness auto
termination
  by (relation "measure (\<lambda>(dc, i, len, s, e, si). len - i)") auto

declare decay_scan.simps [simp del]

text \<open>
  The regression loop \<^verbatim>\<open>for (int i = *start_idx; i <= *end_idx; i++)\<close>, carrying
  \<open>(sum_x, sum_y, sum_xy, sum_x2)\<close>. It is entered with \<open>fs \<noteq> 0\<close> only.
\<close>

function regression_sums ::
  "real list \<Rightarrow> int \<Rightarrow> nat \<Rightarrow> nat \<Rightarrow> real \<times> real \<times> real \<times> real \<Rightarrow> real \<times> real \<times> real \<times> real" where
  "regression_sums decay_curve fs i end_idx (sum_x, sum_y, sum_xy, sum_x2) =
     (if i \<le> end_idx then
        let x = real i / real_of_int fs;
            y = decay_curve ! i
        in regression_sums decay_curve fs (Suc i) end_idx
             (sum_x + x, sum_y + y, sum_xy + x * y, sum_x2 + x * x)
      else (sum_x, sum_y, sum_xy, sum_x2))"
  by pat_completeness auto
termination
  by (relation "measure (\<lambda>(dc, fs, i, e, acc). Suc e - i)") auto

declare regression_sums.simps [simp del]

text \<open>
  The two quantities \<^verbatim>\<open>denominator\<close> and \<^verbatim>\<open>slope\<close> that \<^verbatim>\<open>calculate_decay_time\<close>
  computes from the four sums, with \<^verbatim>\<open>n = *end_idx - *start_idx + 1\<close>.
\<close>

definition denominator :: "real list \<Rightarrow> int \<Rightarrow> int \<Rightarrow> int \<Rightarrow> real" where
  "denominator decay_curve fs start_idx end_idx =
     (let (sum_x, sum_y, sum_xy, sum_x2) =
            regression_sums decay_curve fs (nat start_idx) (nat end_idx) (0, 0, 0, 0);
          n = end_idx - start_idx + 1
      in real_of_int n * sum_x2 - sum_x * sum_x)"

definition slope :: "real list \<Rightarrow> int \<Rightarrow> int \<Rightarrow> int \<Rightarrow> real" where
  "slope decay_curve fs start_idx end_idx =
     (let (sum_x, sum_y, sum_xy, sum_x2) =
            regression_sums decay_curve fs (nat start_idx) (nat end_idx) (0, 0, 0, 0);
          n = end_idx - start_idx + 1
      in (real_of_int n * sum_xy - sum_x * sum_y) / denominator decay_curve fs start_idx end_idx)"

text \<open>
  \<^verbatim>\<open>double calculate_decay_time(double *decay_curve, int len, int fs,
        double start_db, double end_db, int *start_idx, int *end_idx)\<close>.
  The result is the returned double with the two out-parameters. With \<open>fs = 0\<close>
  the abscissa \<^verbatim>\<open>(double)i / fs\<close> is infinite or NaN: fault \<open>NotFinite\<close>.
\<close>

definition calculate_decay_time ::
  "real list \<Rightarrow> nat \<Rightarrow> int \<Rightarrow> real \<Rightarrow> real \<Rightarrow> fault + (real \<times> int \<times> int)" where
  "calculate_decay_time decay_curve len fs start_db end_db =
     (case decay_scan decay_curve 0 len start_db end_db (- 1) of
        Inl f \<Rightarrow> Inl f
      | Inr (start_idx, end_idx) \<Rightarrow>
          if start_idx < 0 \<or> end_idx < 0 \<or> end_idx \<le> start_idx
          then Inr (- 1, start_idx, end_idx)
          else if fs = 0 then Inl NotFinite
          else if \<bar>denominator decay_curve fs start_idx end_idx\<bar> < 1 / 10 ^ 10
          then Inr (- 1, start_idx, end_idx)
          else if slope decay_curve fs start_idx end_idx \<ge> 0
          then Inr (- 1, start_idx, end_idx)
          else
            let rt60 = - 60 / slope decay_curve fs start_idx end_idx
            in Inr (rt60, start_idx, end_idx))"

subsection \<open>main of ir\_analyze.c\<close>

record decay_report =
  t10 :: real
  rt60_t10 :: real
  t20 :: real
  rt60_t20 :: real

text \<open>
  Steps 2 to 4 of \<^verbatim>\<open>main\<close>: the Schroeder curve of the samples read from the file,
  then the two calls of \<^verbatim>\<open>calculate_decay_time\<close> and the two extrapolations.
  \<open>decay_curve\<close> is the \<^verbatim>\<open>malloc\<close>ed buffer of \<open>num_samples\<close> doubles.
\<close>

definition ir_analyze :: "int16 list \<Rightarrow> int \<Rightarrow> real list \<Rightarrow> fault + decay_report" where
  "ir_analyze ir_samples fs decay_curve =
     (let num_samples = length ir_samples in
      case schroeder_integral ir_samples num_samples (take num_samples decay_curve) of
        Inl f \<Rightarrow> Inl f
      | Inr curve \<Rightarrow>
          (case calculate_decay_time curve num_samples fs (- 5) (- 15) of
             Inl f \<Rightarrow> Inl f
           | Inr (t10v, t10_start, t10_end) \<Rightarrow>
               (case calculate_decay_time curve num_samples fs (- 5) (- 25) of
                  Inl f \<Rightarrow> Inl f
                | Inr (t20v, t20_start, t20_end) \<Rightarrow>
                    Inr \<lparr> t10 = t10v,
                          rt60_t10 = (if t10v > 0 then t10v * 6 else - 1),
                          t20 = t20v,
                          rt60_t20 = (if t20v > 0 then t20v * 3 else - 1) \<rparr>)))"

section \<open>tsp\_to\_ir.c: deconvolution\<close>

subsection \<open>read\_wav\<close>

text \<open>
  A file as \<^verbatim>\<open>read_wav\<close> sees it: the fields of the 44-byte \<^verbatim>\<open>WavHeader\<close> that
  the function reads, and the 16-bit samples that follow the header. A path that
  cannot be opened, or a file shorter than the header, is \<open>None\<close>.
\<close>

record wav_file =
  riff :: string
  wave :: string
  fmt :: string
  data :: string
  sample_rate :: int
  data_size :: int
  payload :: "int16 list"

datatype read_error = CannotOpen | InvalidWav | AllocFailed | ShortData

text \<open>C's \<^verbatim>\<open>/\<close> on \<^verbatim>\<open>int\<close> truncates towards zero.\<close>

definition c_div :: "int \<Rightarrow> int \<Rightarrow> int" where
  "c_div a b = sgn a * sgn b * (\<bar>a\<bar> div \<bar>b\<bar>)"

text \<open>
  \<^verbatim>\<open>read_wav\<close>: every failure returns \<open>-1\<close> in C; success hands back the samples
  (their number is the return value in tsp\_to\_ir.c and an out-parameter in the
  other two programs) and the sample rate. A negative sample count makes the
  size passed to \<^verbatim>\<open>malloc\<close> wrap to a huge value, so the allocation fails; an
  allocation of a non-negative size is taken to succeed (for size 0 glibc returns
  a non-null pointer).
\<close>

definition read_wav :: "wav_file option \<Rightarrow> read_error + (int16 list \<times> int)" where
  "read_wav file =
     (case file of
        None \<Rightarrow> Inl CannotOpen
      | Some header \<Rightarrow>
          if riff header \<noteq> ''RIFF'' \<or> wave header \<noteq> ''WAVE'' \<or>
             fmt header \<noteq> ''fmt '' \<or> data header \<noteq> ''data''
          then Inl InvalidWav
          else
            let fs = sample_rate header;
                num_samples = c_div (data_size header) 2
            in if num_samples < 0 then Inl AllocFailed
               else if length (payload header) < nat num_samples then Inl ShortData
               else Inr (take (nat num_samples) (payload header), fs))"

subsection \<open>simple\_fft and simple\_ifft\<close>

text \<open>
  Both functions work in place on a buffer of \<open>n\<close> entries, \<open>n\<close> a power of two:
  \<^verbatim>\<open>main\<close> passes its \<open>N\<close>, a power of two by construction, and buffers of \<open>N\<close>
  entries. The lists are read and written with \<open>!\<close> and \<open>[:=]\<close> as the C arrays are.

  The inner loop of the bit-reversal permutation,
  \<^verbatim>\<open>for (; j & bit; bit >>= 1) j ^= bit;\<close>, returns the final \<open>(j, bit)\<close>
  (the variable \<^verbatim>\<open>bit\<close> is called \<open>bitv\<close> here).
\<close>

function bitrev_carry :: "nat \<Rightarrow> nat \<Rightarrow> nat \<times> nat" where
  "bitrev_carry j bitv =
     (if j AND bitv \<noteq> 0 then bitrev_carry (j XOR bitv) (drop_bit 1 bitv) else (j, bitv))"
  by pat_completeness auto
termination
proof (relation "measure (\<lambda>(j, bitv). bitv)")
  show "wf (measure (\<lambda>(j, bitv). bitv))" by simp
next
  fix j bitv :: nat
  assume a: "j AND bitv \<noteq> 0"
  have "bitv \<noteq> 0"
  proof
    assume "bitv = 0"
    then have "j AND bitv = 0" by simp
    then show False using a by simp
  qed
  then show "((j XOR bitv, drop_bit 1 bitv), (j, bitv)) \<in> measure (\<lambda>(j, bitv). bitv)"
    by (simp add: drop_bit_eq_div)
qed

declare bitrev_carry.simps [simp del]

text \<open>The outer loop \<^verbatim>\<open>for (int i = 1, j = 0; i < n; i++)\<close> with the swap.\<close>

function bit_reversal :: "nat \<Rightarrow> nat \<Rightarrow> nat \<Rightarrow> complex list \<Rightarrow> complex list" where
  "bit_reversal i j n x =
     (if i < n then
        let (j1, bitv) = bitrev_carry j (drop_bit 1 n);
            j2 = j1 XOR bitv
        in bit_reversal (Suc i) j2 n (if i < j2 then x[i := x ! j2, j2 := x ! i] else x)
      else x)"
  by pat_completeness auto
termination
  by (relation "measure (\<lambda>(i, j, n, x). n - i)") auto

declare bit_reversal.simps [simp del]

text \<open>The butterfly loops. \<^verbatim>\<open>for (int j = 0; j < len / 2; j++)\<close>:\<close>

function butterfly_j ::
  "nat \<Rightarrow> nat \<Rightarrow> nat \<Rightarrow> complex \<Rightarrow> complex \<Rightarrow> complex list \<Rightarrow> complex list" where
  "butterfly_j j len i w wlen x =
     (if j < len div 2 then
        let u = x ! (i + j);
            v = x ! (i + j + len div 2) * w;
            x1 = x[i + j := u + v];
            x2 = x1[i + j + len div 2 := u - v]
        in butterfly_j (Suc j) len i (w * wlen) wlen x2
      else x)"
  by pat_completeness auto
termination
  by (relation "measure (\<lambda>(j, len, i, w, wlen, x). len div 2 - j)") auto

declare butterfly_j.simps [simp del]

text \<open>
  \<^verbatim>\<open>for (int i = 0; i < n; i += len)\<close>. In the C text \<open>len \<ge> 2\<close>; the test
  \<open>0 < len\<close> is there for the recursion to be well founded.
\<close>

function butterfly_i :: "nat \<Rightarrow> nat \<Rightarrow> nat \<Rightarrow> complex \<Rightarrow> complex list \<Rightarrow> complex list" where
  "butterfly_i i len n wlen x =
     (if i < n \<and> 0 < len then butterfly_i (i + len) len n wlen (butterfly_j 0 len i 1 wlen x)
      else x)"
  by pat_completeness auto
termination
  by (relation "measure (\<lambda>(i, len, n, wlen, x). n - i)") auto

declare butterfly_i.simps [simp del]

text \<open>
  \<^verbatim>\<open>for (int len = 2; len <= n; len <<= 1)\<close>. \<open>tau\<close> is \<open>2 * pi\<close> in \<^verbatim>\<open>simple_fft\<close>
  and \<open>- 2 * pi\<close> in \<^verbatim>\<open>simple_ifft\<close>; the rest of the loop is the same text. The model
  agrees with the C loop while \<^verbatim>\<open>len <<= 1\<close> stays an \<^verbatim>\<open>int\<close>, that is for \<open>n < 2 ^ 30\<close>: at
  \<open>n = 2 ^ 30\<close> the shift after the last pass overflows in C, where the model ends
  the loop. The sums, differences and products of the passes are exact here and
  rounded to binary64 in the compiled program.
\<close>

function butterfly_stages :: "real \<Rightarrow> nat \<Rightarrow> nat \<Rightarrow> complex list \<Rightarrow> complex list" where
  "butterfly_stages tau len n x =
     (if len \<le> n \<and> 0 < len then
        let ang = tau / real len;
            wlen = Complex (cos ang) (sin ang)
        in butterfly_stages tau (push_bit 1 len) n (butterfly_i 0 len n wlen x)
      else x)"
  by pat_completeness auto
termination
  by (relation "measure (\<lambda>(tau, len, n, x). Suc n - len)") (auto simp add: push_bit_eq_mult)

declare butterfly_stages.simps [simp del]

definition simple_fft :: "complex list \<Rightarrow> nat \<Rightarrow> complex list" where
  "simple_fft x n = butterfly_stages (2 * pi) 2 n (bit_reversal 1 0 n x)"

text \<open>The normalisation \<^verbatim>\<open>for (int i = 0; i < n; i++) x[i] /= n;\<close> of \<^verbatim>\<open>simple_ifft\<close>.\<close>

function divide_by_n :: "nat \<Rightarrow> nat \<Rightarrow> complex list \<Rightarrow> complex list" where
  "divide_by_n i n x =
     (if i < n then divide_by_n (Suc i) n (x[i := x ! i / of_nat n]) else x)"
  by pat_completeness auto
termination
  by (relation "measure (\<lambda>(i, n, x). n - i)") auto

declare divide_by_n.simps [simp del]

definition simple_ifft :: "complex list \<Rightarrow> nat \<Rightarrow> complex list" where
  "simple_ifft x n = divide_by_n 0 n (butterfly_stages (- 2 * pi) 2 n (bit_reversal 1 0 n x))"

subsection \<open>The steps of main\<close>

text \<open>Step 3, \<^verbatim>\<open>while (N < max_len) N <<= 1;\<close> from \<open>N = 1\<close>.\<close>

function fft_size :: "nat \<Rightarrow> nat \<Rightarrow> nat" where
  "fft_size N max_len = (if N < max_len \<and> 0 < N then fft_size (push_bit 1 N) max_len else N)"
  by pat_completeness auto
termination
  by (relation "measure (\<lambda>(N, max_len). max_len - N)") (auto simp add: push_bit_eq_mult)

declare fft_size.simps [simp del]

text \<open>
  Steps 4 and 5 copy samples into a zeroed (\<^verbatim>\<open>calloc\<close>) complex buffer:
  \<^verbatim>\<open>for (int i = 0; i < copy_len; i++) BUF[i] = (double)samples[start_idx + i] / 32768.0;\<close>
  (for the excitation \<open>start_idx = 0\<close> and \<open>copy_len = tsp_len\<close>).
\<close>

function copy_samples ::
  "nat \<Rightarrow> nat \<Rightarrow> nat \<Rightarrow> int16 list \<Rightarrow> complex list \<Rightarrow> complex list" where
  "copy_samples i copy_len start_idx samples buf =
     (if i < copy_len then
        copy_samples (Suc i) copy_len start_idx samples
          (buf[i := complex_of_real (real_of_int (sint (samples ! (start_idx + i))) / 32768)])
      else buf)"
  by pat_completeness auto
termination
  by (relation "measure (\<lambda>(i, copy_len, start_idx, samples, buf). copy_len - i)") auto

declare copy_samples.simps [simp del]

definition TSP_time :: "int16 list \<Rightarrow> nat \<Rightarrow> complex list" where
  "TSP_time tsp_samples N =
     copy_samples 0 (length tsp_samples) 0 tsp_samples (replicate N 0)"

text \<open>
  \<^verbatim>\<open>int start_idx = (response_len >= tsp_len * 2) ? tsp_len : 0;\<close> and
  \<^verbatim>\<open>int copy_len = (response_len - start_idx < N) ? response_len - start_idx : N;\<close>
  (the two variables carry the prefix \<open>response_\<close> here; \<open>start_idx\<close> never exceeds
  \<open>response_len\<close>, so the subtraction is the C one).
\<close>

definition response_start_idx :: "nat \<Rightarrow> nat \<Rightarrow> nat" where
  "response_start_idx tsp_len response_len = (if response_len \<ge> tsp_len * 2 then tsp_len else 0)"

definition response_copy_len :: "nat \<Rightarrow> nat \<Rightarrow> nat \<Rightarrow> nat" where
  "response_copy_len tsp_len response_len N =
     (if response_len - response_start_idx tsp_len response_len < N
      then response_len - response_start_idx tsp_len response_len else N)"

definition RESPONSE_time :: "nat \<Rightarrow> int16 list \<Rightarrow> nat \<Rightarrow> complex list" where
  "RESPONSE_time tsp_len response_samples N =
     copy_samples 0 (response_copy_len tsp_len (length response_samples) N)
       (response_start_idx tsp_len (length response_samples)) response_samples (replicate N 0)"

text \<open>
  Step 6 fills a spectrum from a phase law \<open>theta\<close> for \<open>k = 0 .. N / 2\<close> and mirrors
  it by conjugation. tsp\_gen.c has the same loop with another phase.
  \<^verbatim>\<open>for (int k = 0; k <= N / 2; k++) { X[k] = cos(theta) + I * sin(theta);
       if (k > 0 && k < N / 2) X[N - k] = conj(X[k]); }\<close>
\<close>

function chirp_loop :: "(nat \<Rightarrow> real) \<Rightarrow> nat \<Rightarrow> nat \<Rightarrow> complex list \<Rightarrow> complex list" where
  "chirp_loop theta k N X =
     (if k \<le> N div 2 then
        let X1 = X[k := Complex (cos (theta k)) (sin (theta k))];
            X2 = (if k > 0 \<and> k < N div 2 then X1[N - k := cnj (X1 ! k)] else X1)
        in chirp_loop theta (Suc k) N X2
      else X)"
  by pat_completeness auto
termination
  by (relation "measure (\<lambda>(theta, k, N, X). Suc (N div 2) - k)") auto

declare chirp_loop.simps [simp del]

text \<open>
  \<^verbatim>\<open>double theta = 2.0 * M_PI * J * pow((double)k / N, 2);\<close> and, after the loop,
  \<^verbatim>\<open>INV_FILTER[N / 2] = creal(INV_FILTER[N / 2]) + 0 * I;\<close>. \<open>X0\<close> is the \<^verbatim>\<open>malloc\<close>ed buffer.
\<close>

definition inv_theta :: "nat \<Rightarrow> nat \<Rightarrow> nat \<Rightarrow> real" where
  "inv_theta N J k = 2 * pi * real J * (real k / real N) ^ 2"

definition INV_FILTER :: "nat \<Rightarrow> nat \<Rightarrow> complex list \<Rightarrow> complex list" where
  "INV_FILTER N J X0 =
     (let X = chirp_loop (inv_theta N J) 0 N X0
      in X[N div 2 := Complex (Re (X ! (N div 2))) 0])"

text \<open>
  Step 7, \<^verbatim>\<open>for (int k = 0; k < N; k++)\<close>: the per-bin product, or zero when the
  magnitude of the excitation spectrum is not above \<open>1e-10\<close>.
\<close>

function IR_FREQ_loop ::
  "nat \<Rightarrow> nat \<Rightarrow> complex list \<Rightarrow> complex list \<Rightarrow> complex list \<Rightarrow> complex list \<Rightarrow> complex list" where
  "IR_FREQ_loop k N TSP RESPONSE INV IR =
     (if k < N then
        let tsp_mag = cmod (TSP ! k)
        in IR_FREQ_loop (Suc k) N TSP RESPONSE INV
             (IR[k := (if tsp_mag > 1 / 10 ^ 10 then RESPONSE ! k * INV ! k else 0)])
      else IR)"
  by pat_completeness auto
termination
  by (relation "measure (\<lambda>(k, N, TSP, RESPONSE, INV, IR). N - k)") auto

declare IR_FREQ_loop.simps [simp del]

subsection \<open>Normalise and quantise (step 9, and step 5 of adaptive\_filter.c)\<close>

text \<open>
  \<^verbatim>\<open>double max_amp = 0; for (i = 0; i < N; i++) { double amp = fabs(x[i]);
       if (amp > max_amp) max_amp = amp; }\<close>
  on the real parts of \<^verbatim>\<open>IR_FREQ\<close> in tsp\_to\_ir.c and on \<^verbatim>\<open>h\<close> in adaptive\_filter.c.
\<close>

function max_amp_loop :: "nat \<Rightarrow> nat \<Rightarrow> real list \<Rightarrow> real \<Rightarrow> real" where
  "max_amp_loop i N x max_amp =
     (if i < N then
        let amp = \<bar>x ! i\<bar>
        in max_amp_loop (Suc i) N x (if amp > max_amp then amp else max_amp)
      else max_amp)"
  by pat_completeness auto
termination
  by (relation "measure (\<lambda>(i, N, x, m). N - i)") auto

declare max_amp_loop.simps [simp del]

text \<open>The cast \<^verbatim>\<open>(int16_t)d\<close> of a finite double.\<close>

definition to_int16 :: "real \<Rightarrow> fault + int16" where
  "to_int16 d =
     (let t = (if d \<ge> 0 then \<lfloor>d\<rfloor> else \<lceil>d\<rceil>)
      in if - 32768 \<le> t \<and> t \<le> 32767 then Inr (word_of_int t) else Inl NotRepresentable)"

text \<open>
  \<^verbatim>\<open>for (i = 0; i < N; i++) { double sample = x[i] / max_amp * 0.9;
       ir_samples[i] = (int16_t)(sample * 32767.0); }\<close>
  With \<open>max_amp = 0\<close> the quotient is \<open>0/0\<close> (NaN) or infinite and the cast is undefined.
\<close>

function quantize_loop ::
  "nat \<Rightarrow> nat \<Rightarrow> real list \<Rightarrow> real \<Rightarrow> int16 list \<Rightarrow> fault + int16 list" where
  "quantize_loop i N x max_amp ir_samples =
     (if i < N then
        if max_amp = 0 then Inl NotFinite
        else
          let sample = x ! i / max_amp * (9 / 10)
          in (case to_int16 (sample * 32767) of
                Inl f \<Rightarrow> Inl f
              | Inr pcm \<Rightarrow> quantize_loop (Suc i) N x max_amp (ir_samples[i := pcm]))
      else Inr ir_samples)"
  by pat_completeness auto
termination
  by (relation "measure (\<lambda>(i, N, x, m, out). N - i)") auto

declare quantize_loop.simps [simp del]

definition normalize_quantize :: "real list \<Rightarrow> nat \<Rightarrow> int16 list \<Rightarrow> fault + int16 list" where
  "normalize_quantize x N ir_samples =
     quantize_loop 0 N x (max_amp_loop 0 N x 0) ir_samples"

subsection \<open>main of tsp\_to\_ir.c\<close>

datatype abort = ReadFailed | RateMismatch | WriteFailed

text \<open>
  What a run of a program ends in: \<open>Exit1\<close> is an error message and exit status 1,
  \<open>Exit0\<close> is the samples and sample rate written to the output file with exit
  status 0, \<open>Undefined\<close> is a run that reaches behaviour C does not define.
\<close>

datatype outcome = Exit1 abort | Undefined fault | Exit0 "int16 list" int

text \<open>
  The spectra \<^verbatim>\<open>TSP\<close>, \<^verbatim>\<open>RESPONSE\<close> and \<^verbatim>\<open>IR_FREQ\<close> of \<^verbatim>\<open>main\<close>, then \<^verbatim>\<open>main\<close> itself.
  \<open>writable\<close> says whether \<^verbatim>\<open>write_wav\<close> can open the output file (its only
  failure). \<open>junk\<close> and \<open>junk16\<close> are the contents of \<^verbatim>\<open>malloc\<close>ed memory before the
  program writes it.
\<close>

definition TSP :: "int16 list \<Rightarrow> nat \<Rightarrow> complex list" where
  "TSP tsp_samples N = simple_fft (TSP_time tsp_samples N) N"

definition RESPONSE :: "nat \<Rightarrow> int16 list \<Rightarrow> nat \<Rightarrow> complex list" where
  "RESPONSE tsp_len response_samples N = simple_fft (RESPONSE_time tsp_len response_samples N) N"

definition IR_FREQ :: "int16 list \<Rightarrow> int16 list \<Rightarrow> nat \<Rightarrow> (nat \<Rightarrow> complex) \<Rightarrow> complex list" where
  "IR_FREQ tsp_samples response_samples N junk =
     (let tsp_len = length tsp_samples;
          J = tsp_len div 2
      in IR_FREQ_loop 0 N (TSP tsp_samples N) (RESPONSE tsp_len response_samples N)
           (INV_FILTER N J (map junk [0..<N])) (map junk [0..<N]))"

definition tsp_to_ir_main ::
  "wav_file option \<Rightarrow> wav_file option \<Rightarrow> bool \<Rightarrow> (nat \<Rightarrow> complex) \<Rightarrow> (nat \<Rightarrow> int16) \<Rightarrow> outcome" where
  "tsp_to_ir_main tsp_file response_file writable junk junk16 =
     (case read_wav tsp_file of
        Inl e \<Rightarrow> Exit1 ReadFailed
      | Inr (tsp_samples, fs_tsp) \<Rightarrow>
          (case read_wav response_file of
             Inl e \<Rightarrow> Exit1 ReadFailed
           | Inr (response_samples, fs_response) \<Rightarrow>
               if fs_tsp \<noteq> fs_response then Exit1 RateMismatch
               else
                 let tsp_len = length tsp_samples;
                     response_len = length response_samples;
                     max_len = (if tsp_len > response_len then tsp_len else response_len);
                     N = fft_size 1 max_len;
                     ir = simple_ifft (IR_FREQ tsp_samples response_samples N junk) N
                 in (case normalize_quantize (map Re ir) N (map junk16 [0..<N]) of
                       Inl f \<Rightarrow> Undefined f
                     | Inr ir_samples \<Rightarrow>
                         if writable then Exit0 ir_samples fs_tsp else Exit1 WriteFailed)))"

section \<open>tsp\_gen.c: the TSP synthesiser\<close>

text \<open>
  \<^verbatim>\<open>double theta = -2.0 * M_PI * J * pow((double)k / N, 2) - (2.0 * M_PI * k * n0 / N);\<close>
\<close>

definition up_theta :: "nat \<Rightarrow> nat \<Rightarrow> nat \<Rightarrow> nat \<Rightarrow> real" where
  "up_theta N J n0 k =
     - 2 * pi * real J * (real k / real N) ^ 2 - (2 * pi * real k * real n0 / real N)"

text \<open>
  Step 1 of \<^verbatim>\<open>main\<close>: the loop over \<open>k = 0 .. N / 2\<close> (the loop \<open>chirp_loop\<close> of
  tsp\_to\_ir.c with the phase \<open>up_theta\<close>), then
  \<^verbatim>\<open>H[N / 2] = creal(H[N / 2]) + 0 * I;\<close>. \<open>J = N / 2\<close> and \<open>n0 = N / 4\<close> as in \<^verbatim>\<open>main\<close>;
  \<open>X0\<close> is the \<^verbatim>\<open>malloc\<close>ed buffer.
\<close>

definition tsp_gen_H :: "nat \<Rightarrow> complex list \<Rightarrow> complex list" where
  "tsp_gen_H N X0 =
     (let J = N div 2;
          n0 = N div 4;
          H = chirp_loop (up_theta N J n0) 0 N X0
      in H[N div 2 := Complex (Re (H ! (N div 2))) 0])"

text \<open>
  \<^verbatim>\<open>main\<close> with its constants \<open>N = 262144\<close> and \<open>fs = 48000\<close>: the spectrum, the
  inverse transform, the peak, then the file is opened and each sample is
  normalised, quantised and written.
\<close>

definition tsp_gen_main :: "bool \<Rightarrow> (nat \<Rightarrow> complex) \<Rightarrow> outcome" where
  "tsp_gen_main writable junk =
     (let N = 262144;
          fs = 48000;
          H = simple_ifft (tsp_gen_H N (map junk [0..<N])) N
      in if \<not> writable then Exit1 WriteFailed
         else (case normalize_quantize (map Re H) N (replicate N 0) of
                 Inl f \<Rightarrow> Undefined f
               | Inr pcm \<Rightarrow> Exit0 pcm fs))"

section \<open>adaptive\_filter.c: the NLMS estimator\<close>

subsection \<open>nlms\_adaptive\_filter\<close>

text \<open>\<^verbatim>\<open>for (int i = 0; i < filter_len; i++) h[i] = 0.0;\<close>\<close>

function zero_h :: "nat \<Rightarrow> nat \<Rightarrow> real list \<Rightarrow> real list" where
  "zero_h i filter_len h = (if i < filter_len then zero_h (Suc i) filter_len (h[i := 0]) else h)"
  by pat_completeness auto
termination
  by (relation "measure (\<lambda>(i, filter_len, h). filter_len - i)") auto

declare zero_h.simps [simp del]

text \<open>
  \<^verbatim>\<open>for (int i = filter_len - 1; i > 0; i--) x_buf[i] = x_buf[i - 1];\<close>
  The counter \<open>Suc i\<close> is the index written next; the loop starts at \<open>filter_len - 1\<close>.
\<close>

fun shift_x_buf :: "nat \<Rightarrow> real list \<Rightarrow> real list" where
  "shift_x_buf 0 x_buf = x_buf"
| "shift_x_buf (Suc i) x_buf = shift_x_buf i (x_buf[Suc i := x_buf ! i])"

text \<open>\<^verbatim>\<open>for (int i = 0; i < filter_len; i++) y_hat += h[i] * x_buf[i];\<close>\<close>

function y_hat_loop :: "nat \<Rightarrow> nat \<Rightarrow> real list \<Rightarrow> real list \<Rightarrow> real \<Rightarrow> real" where
  "y_hat_loop i filter_len h x_buf y_hat =
     (if i < filter_len then y_hat_loop (Suc i) filter_len h x_buf (y_hat + h ! i * x_buf ! i)
      else y_hat)"
  by pat_completeness auto
termination
  by (relation "measure (\<lambda>(i, filter_len, h, x_buf, y_hat). filter_len - i)") auto

declare y_hat_loop.simps [simp del]

text \<open>\<^verbatim>\<open>for (int i = 0; i < filter_len; i++) x_power += x_buf[i] * x_buf[i];\<close>\<close>

function x_power_loop :: "nat \<Rightarrow> nat \<Rightarrow> real list \<Rightarrow> real \<Rightarrow> real" where
  "x_power_loop i filter_len x_buf x_power =
     (if i < filter_len then x_power_loop (Suc i) filter_len x_buf (x_power + x_buf ! i * x_buf ! i)
      else x_power)"
  by pat_completeness auto
termination
  by (relation "measure (\<lambda>(i, filter_len, x_buf, x_power). filter_len - i)") auto

declare x_power_loop.simps [simp del]

text \<open>\<^verbatim>\<open>for (int i = 0; i < filter_len; i++) h[i] += step * e * x_buf[i];\<close>\<close>

function update_h :: "nat \<Rightarrow> nat \<Rightarrow> real list \<Rightarrow> real \<Rightarrow> real \<Rightarrow> real list \<Rightarrow> real list" where
  "update_h i filter_len h step e x_buf =
     (if i < filter_len
      then update_h (Suc i) filter_len (h[i := h ! i + step * e * x_buf ! i]) step e x_buf
      else h)"
  by pat_completeness auto
termination
  by (relation "measure (\<lambda>(i, filter_len, h, step, e, x_buf). filter_len - i)") auto

declare update_h.simps [simp del]

text \<open>The body of the loop over \<open>n\<close>, on the state \<open>(h, x_buf)\<close>, for \<open>x[n]\<close> and \<open>y[n]\<close>.\<close>

definition nlms_sample ::
  "real \<Rightarrow> real \<Rightarrow> nat \<Rightarrow> real \<Rightarrow> real \<Rightarrow> real list \<times> real list \<Rightarrow> real list \<times> real list" where
  "nlms_sample xn yn filter_len mu beta state =
     (let h = fst state;
          x_buf = (shift_x_buf (filter_len - 1) (snd state))[0 := xn];
          y_hat = y_hat_loop 0 filter_len h x_buf 0;
          e = yn - y_hat;
          x_power = x_power_loop 0 filter_len x_buf beta
      in if x_power > 1 / 10 ^ 10
         then (let step = mu / x_power in (update_h 0 filter_len h step e x_buf, x_buf))
         else (h, x_buf))"

text \<open>
  \<^verbatim>\<open>for (int n = 0; n < x_len; n++)\<close>. The loop reads \<^verbatim>\<open>x[n]\<close> and \<^verbatim>\<open>y[n]\<close> and writes
  \<^verbatim>\<open>x_buf[0]\<close>, which lies outside a delay line of \<open>filter_len = 0\<close> entries.
\<close>

function nlms_loop ::
  "nat \<Rightarrow> nat \<Rightarrow> real list \<Rightarrow> real list \<Rightarrow> nat \<Rightarrow> real \<Rightarrow> real \<Rightarrow> real list \<times> real list
     \<Rightarrow> fault + real list" where
  "nlms_loop n x_len x y filter_len mu beta state =
     (if n < x_len then
        if length x \<le> n \<or> length y \<le> n \<or> filter_len = 0 then Inl OutOfBounds
        else nlms_loop (Suc n) x_len x y filter_len mu beta
               (nlms_sample (x ! n) (y ! n) filter_len mu beta state)
      else Inr (fst state))"
  by pat_completeness auto
termination
  by (relation "measure (\<lambda>(n, x_len, x, y, filter_len, mu, beta, state). x_len - n)") auto

declare nlms_loop.simps [simp del]

text \<open>
  \<^verbatim>\<open>void nlms_adaptive_filter(double *x, double *y, int x_len, int filter_len,
        double *h, double mu, double beta)\<close>: \<open>h\<close> is the caller's buffer, the delay
  line is a fresh \<^verbatim>\<open>calloc\<close>. The result is the final \<open>h\<close>.
\<close>

definition nlms_adaptive_filter ::
  "real list \<Rightarrow> real list \<Rightarrow> nat \<Rightarrow> nat \<Rightarrow> real list \<Rightarrow> real \<Rightarrow> real \<Rightarrow> fault + real list" where
  "nlms_adaptive_filter x y x_len filter_len h mu beta =
     (if length h < filter_len then Inl OutOfBounds
      else nlms_loop 0 x_len x y filter_len mu beta
             (zero_h 0 filter_len h, replicate filter_len 0))"

subsection \<open>main of adaptive\_filter.c\<close>

text \<open>
  \<open>filter_len\<close> is the fourth argument (\<open>48000\<close> when absent). The two signals are
  cut to the shorter length and divided by 32768; \<open>mu = 0.1\<close> and \<open>beta = 1e-6\<close>.
\<close>

definition adaptive_filter_main ::
  "wav_file option \<Rightarrow> wav_file option \<Rightarrow> nat \<Rightarrow> bool \<Rightarrow> (nat \<Rightarrow> int16) \<Rightarrow> outcome" where
  "adaptive_filter_main input_file output_file filter_len writable junk16 =
     (case read_wav input_file of
        Inl e \<Rightarrow> Exit1 ReadFailed
      | Inr (input_samples, fs_input) \<Rightarrow>
          (case read_wav output_file of
             Inl e \<Rightarrow> Exit1 ReadFailed
           | Inr (output_samples, fs_output) \<Rightarrow>
               if fs_input \<noteq> fs_output then Exit1 RateMismatch
               else
                 let input_len = length input_samples;
                     output_len = length output_samples;
                     min_len = (if input_len < output_len then input_len else output_len);
                     x = map (\<lambda>s. real_of_int (sint s) / 32768) (take min_len input_samples);
                     y = map (\<lambda>s. real_of_int (sint s) / 32768) (take min_len output_samples)
                 in (case nlms_adaptive_filter x y min_len filter_len (replicate filter_len 0)
                            (1 / 10) (1 / 10 ^ 6) of
                       Inl f \<Rightarrow> Undefined f
                     | Inr h \<Rightarrow>
                         (case normalize_quantize h filter_len (map junk16 [0..<filter_len]) of
                            Inl f \<Rightarrow> Undefined f
                          | Inr ir_samples \<Rightarrow>
                              if writable then Exit0 ir_samples fs_input
                              else Exit1 WriteFailed))))"

section \<open>Notions used to state the properties\<close>

text \<open>The squared normalised sample \<^verbatim>\<open>sample * sample\<close> of index \<open>k\<close>.\<close>

definition sq_sample :: "int16 list \<Rightarrow> nat \<Rightarrow> real" where
  "sq_sample ir k = (real_of_int (sint (ir ! k)) / 32768) * (real_of_int (sint (ir ! k)) / 32768)"

text \<open>
  The NLMS filter in the specification's words: coefficient vector and delay
  line start at zero; per sample the newest input enters the delay line,
  \<open>y_hat = \<Sum> h[i] * x_buf[i]\<close>, \<open>e = y[n] - y_hat\<close>, \<open>P = beta + \<Sum> x_buf[i]\<^sup>2\<close>; when
  \<open>P > 1e-10\<close> every \<open>h[i]\<close> grows by \<open>(mu / P) * e * x_buf[i]\<close>, otherwise \<open>h\<close> stays.
\<close>

definition nlms_spec_step ::
  "real \<Rightarrow> real \<Rightarrow> real \<Rightarrow> real \<Rightarrow> real list \<times> real list \<Rightarrow> real list \<times> real list" where
  "nlms_spec_step mu beta xn yn state =
     (let h = fst state;
          x_buf = xn # butlast (snd state);
          y_hat = (\<Sum>i = 0..<length h. h ! i * x_buf ! i);
          e = yn - y_hat;
          P = beta + (\<Sum>i = 0..<length h. x_buf ! i * x_buf ! i)
      in if P > 1 / 10 ^ 10
         then (map2 (\<lambda>hi xi. hi + mu / P * e * xi) h x_buf, x_buf)
         else (h, x_buf))"

fun nlms_spec_run ::
  "real \<Rightarrow> real \<Rightarrow> real list \<Rightarrow> real list \<Rightarrow> real list \<times> real list \<Rightarrow> real list \<times> real list" where
  "nlms_spec_run mu beta (xn # xs) (yn # ys) state =
     nlms_spec_run mu beta xs ys (nlms_spec_step mu beta xn yn state)"
| "nlms_spec_run mu beta xs ys state = state"

definition nlms_spec :: "real list \<Rightarrow> real list \<Rightarrow> nat \<Rightarrow> real \<Rightarrow> real \<Rightarrow> real list" where
  "nlms_spec x y filter_len mu beta =
     fst (nlms_spec_run mu beta x y (replicate filter_len 0, replicate filter_len 0))"

text \<open>
  Notions for the two transforms. \<open>bitrev s j\<close> is \<open>j\<close> with its \<open>s\<close> low bits in the opposite
  order; \<open>twiddle tau s a\<close> is \<open>exp (\<i> * tau * a / 2 ^ s)\<close>; \<open>dft_block tau s z p\<close> is the
  entry \<open>p\<close> of the transform, of kernel \<open>twiddle tau s\<close>, of the block of \<open>2 ^ s\<close> entries of \<open>z\<close>
  that holds \<open>p\<close>, the block read in the order \<open>bitrev s\<close>.
\<close>

fun bitrev :: "nat \<Rightarrow> nat \<Rightarrow> nat" where
  "bitrev 0 j = 0"
| "bitrev (Suc s) j = bitrev s (j div 2) + (j mod 2) * 2 ^ s"

definition twiddle :: "real \<Rightarrow> nat \<Rightarrow> nat \<Rightarrow> complex" where
  "twiddle tau s a = cis (tau * real a / 2 ^ s)"

definition dft_block :: "real \<Rightarrow> nat \<Rightarrow> complex list \<Rightarrow> nat \<Rightarrow> complex" where
  "dft_block tau s z p =
     (\<Sum>j<2 ^ s. z ! (p - p mod 2 ^ s + bitrev s j) * twiddle tau s (j * (p mod 2 ^ s)))"

section \<open>Properties of ir\_analyze.c\<close>

subsection \<open>The Schroeder curve\<close>

lemma length_schroeder_energy [simp]:
  "length (schroeder_energy ir i s dc) = length dc"
  by (induction i arbitrary: s dc) (simp_all add: Let_def)

lemma schroeder_energy_nth:
  "j < length dc \<Longrightarrow>
   schroeder_energy ir i s dc ! j =
     (if j < i then s + (\<Sum>k = j..<i. sq_sample ir k) else dc ! j)"
proof (induction i arbitrary: s dc)
  case 0
  then show ?case by simp
next
  case (Suc i)
  show ?case
  proof (cases "j < i")
    case True
    then show ?thesis using Suc
      by (simp add: Let_def sq_sample_def sum.atLeastLessThan_Suc algebra_simps)
  next
    case False
    then show ?thesis using Suc
      by (auto simp add: Let_def sq_sample_def nth_list_update)
  qed
qed

lemma length_schroeder_db [simp]:
  "length (schroeder_db m i len dc) = length dc"
  by (induction m i len dc rule: schroeder_db.induct) (subst schroeder_db.simps, simp)

lemma schroeder_db_nth:
  "j < length dc \<Longrightarrow>
   schroeder_db m i len dc ! j =
     (if i \<le> j \<and> j < len
      then (if dc ! j > 0 then 10 * log 10 (dc ! j / m) else - 100)
      else dc ! j)"
proof (induction m i len dc rule: schroeder_db.induct)
  case (1 m i len dc)
  show ?case
  proof (cases "i < len")
    case True
    show ?thesis
    proof (cases "j = i")
      case True
      then show ?thesis using 1 \<open>i < len\<close>
        by (subst schroeder_db.simps) (simp add: nth_list_update)
    next
      case False
      then show ?thesis using 1 \<open>i < len\<close>
        by (subst schroeder_db.simps) (auto simp add: nth_list_update)
    qed
  next
    case False
    then show ?thesis by (subst schroeder_db.simps) simp
  qed
qed

lemma sq_sample_nonneg: "0 \<le> sq_sample ir k"
  by (simp add: sq_sample_def)

lemma energy_tail_sum:
  assumes "i < len" "len \<le> length dc"
  shows "schroeder_energy ir len 0 dc ! i = (\<Sum>k = i..<len. sq_sample ir k)"
  using assms by (simp add: schroeder_energy_nth)

lemma energy_antimono:
  assumes "i \<le> j" "j < len" "len \<le> length dc"
  shows "schroeder_energy ir len 0 dc ! j \<le> schroeder_energy ir len 0 dc ! i"
proof -
  have "(\<Sum>k = j..<len. sq_sample ir k) \<le> (\<Sum>k = i..<len. sq_sample ir k)"
    using assms by (intro sum_mono2) (auto simp add: sq_sample_nonneg)
  then show ?thesis using assms by (simp add: energy_tail_sum)
qed

lemma schroeder_integral_Inr:
  assumes "len \<le> length ir" "len \<le> length dc" "0 < len"
    and "0 < schroeder_energy ir len 0 dc ! 0"
  shows "schroeder_integral ir len dc =
           Inr (schroeder_db (schroeder_energy ir len 0 dc ! 0) 0 len (schroeder_energy ir len 0 dc))"
proof -
  have "dc \<noteq> []" using assms by auto
  then show ?thesis using assms by (simp add: schroeder_integral_def Let_def)
qed

text \<open>
  Claim C8, as the code has it. The first loop leaves in entry \<open>i\<close> the sum of the
  squared normalised samples from \<open>i\<close> to the end; this sequence never increases
  with the index, and entry \<open>0\<close> is the total energy. When the total energy is
  positive, \<^verbatim>\<open>schroeder_integral\<close> replaces entry \<open>i\<close> by
  \<open>10 * log 10 (energy i / energy 0)\<close>, or by \<open>- 100\<close> when the energy of \<open>i\<close> is
  zero. When the total energy is zero the guard \<^verbatim>\<open>if (max_energy > 0)\<close> skips the
  conversion and the buffer keeps the energies, all zero.
\<close>

theorem schroeder_integral_curve:
  assumes "len \<le> length ir" "len \<le> length decay_curve" "0 < len"
  shows
    "(\<forall>i. i < len \<longrightarrow>
        schroeder_energy ir len 0 decay_curve ! i = (\<Sum>k = i..<len. sq_sample ir k)) \<and>
     (\<forall>i j. i \<le> j \<and> j < len \<longrightarrow>
        schroeder_energy ir len 0 decay_curve ! j \<le> schroeder_energy ir len 0 decay_curve ! i) \<and>
     (0 < schroeder_energy ir len 0 decay_curve ! 0 \<longrightarrow>
        (\<exists>curve. schroeder_integral ir len decay_curve = Inr curve \<and>
           length curve = length decay_curve \<and>
           (\<forall>i. i < len \<longrightarrow> curve ! i =
              (if schroeder_energy ir len 0 decay_curve ! i > 0
               then 10 * log 10 (schroeder_energy ir len 0 decay_curve ! i /
                                 schroeder_energy ir len 0 decay_curve ! 0)
               else - 100)))) \<and>
     (\<not> 0 < schroeder_energy ir len 0 decay_curve ! 0 \<longrightarrow>
        schroeder_integral ir len decay_curve = Inr (schroeder_energy ir len 0 decay_curve) \<and>
        (\<forall>i. i < len \<longrightarrow> schroeder_energy ir len 0 decay_curve ! i = 0))"
proof (intro conjI allI impI)
  fix i assume "i < len"
  then show "schroeder_energy ir len 0 decay_curve ! i = (\<Sum>k = i..<len. sq_sample ir k)"
    using assms by (simp add: energy_tail_sum)
next
  fix i j assume "i \<le> j \<and> j < len"
  then show "schroeder_energy ir len 0 decay_curve ! j \<le> schroeder_energy ir len 0 decay_curve ! i"
    using assms energy_antimono by blast
next
  let ?en = "schroeder_energy ir len 0 decay_curve"
  assume pos: "0 < ?en ! 0"
  have ne: "decay_curve \<noteq> []" using assms by auto
  have eq: "schroeder_integral ir len decay_curve = Inr (schroeder_db (?en ! 0) 0 len ?en)"
    using assms ne pos by (simp add: schroeder_integral_def Let_def)
  have "\<forall>i. i < len \<longrightarrow> schroeder_db (?en ! 0) 0 len ?en ! i =
          (if ?en ! i > 0 then 10 * log 10 (?en ! i / ?en ! 0) else - 100)"
    using assms by (simp add: schroeder_db_nth)
  then show "\<exists>curve. schroeder_integral ir len decay_curve = Inr curve \<and>
           length curve = length decay_curve \<and>
           (\<forall>i. i < len \<longrightarrow> curve ! i =
              (if ?en ! i > 0 then 10 * log 10 (?en ! i / ?en ! 0) else - 100))"
    using eq by simp
next
  let ?en = "schroeder_energy ir len 0 decay_curve"
  assume npos: "\<not> 0 < ?en ! 0"
  have ne: "decay_curve \<noteq> []" using assms by auto
  show "schroeder_integral ir len decay_curve = Inr ?en"
    using assms ne npos by (simp add: schroeder_integral_def Let_def)
next
  let ?en = "schroeder_energy ir len 0 decay_curve"
  fix i assume npos: "\<not> 0 < ?en ! 0" and i: "i < len"
  have "?en ! i \<le> ?en ! 0" using energy_antimono [of 0 i len decay_curve ir] i assms by simp
  moreover have "0 \<le> ?en ! i"
    using i assms by (simp add: energy_tail_sum sum_nonneg sq_sample_nonneg)
  ultimately show "?en ! i = 0" using npos by linarith
qed

text \<open>
  The theorem at the two samples \<open>16384, 0\<close> (one half of full scale, then silence):
  energies \<open>1/4\<close> and \<open>0\<close>, curve \<open>0 dB\<close> and the floor \<open>- 100 dB\<close>.
\<close>

theorem schroeder_integral_curve_witness:
  "schroeder_energy [16384, 0] 2 0 [7, 7] ! 1 \<le> schroeder_energy [16384, 0] 2 0 [7, 7] ! 0 \<and>
   schroeder_energy [16384, 0] 2 0 [7, 7] ! 0 = 1 / 4 \<and>
   schroeder_integral [16384, 0] 2 [7, 7] = Inr [0, - 100]"
proof -
  have en: "schroeder_energy [16384, 0] 2 0 [7, 7] = [1 / 4, 0]"
    by (simp add: numeral_2_eq_2 Let_def)
  have h: "(2::nat) \<le> length [16384, 0 :: int16]" "(2::nat) \<le> length [7, 7 :: real]" "0 < (2::nat)"
    by simp_all
  from schroeder_integral_curve [OF h]
  obtain curve where c: "schroeder_integral [16384, 0] 2 [7, 7] = Inr curve"
    "length curve = 2" "curve ! 0 = 0" "curve ! 1 = - 100"
    by (auto simp add: en)
  have "curve = [0, - 100]"
    using c(2-4) by (intro nth_equalityI) (auto simp add: less_Suc_eq numeral_2_eq_2)
  then show ?thesis using c(1) by (simp add: en)
qed

text \<open>
  Claim C8 as the specification words it promises \<open>- 100\<close> wherever the energy is
  exactly zero, for every input. On two silent samples the energies are zero and
  the curve handed back is \<open>[0, 0]\<close>, not \<open>[- 100, - 100]\<close>.
\<close>

theorem schroeder_zero_energy_counterexample:
  "schroeder_energy [0, 0] 2 0 [7, 7] ! 1 = 0 \<and>
   schroeder_integral [0, 0] 2 [7, 7] = Inr [0, 0] \<and>
   schroeder_integral [0, 0] 2 [7, 7] \<noteq> Inr [- 100, - 100]"
  by (simp add: schroeder_integral_def Let_def numeral_2_eq_2)

subsection \<open>The interval scan\<close>

lemma decay_scan_total:
  "len \<le> length dc \<Longrightarrow> \<exists>si ei. decay_scan dc i len s e st = Inr (si, ei)"
proof (induction dc i len s e st rule: decay_scan.induct)
  case (1 dc i len s e st)
  show ?case
  proof (cases "i < len")
    case True
    then show ?thesis using 1
      by (subst decay_scan.simps) (auto simp add: Let_def)
  next
    case False
    then show ?thesis by (subst decay_scan.simps) simp
  qed
qed

text \<open>
  The end index is the first index from \<open>i\<close> on whose value is at or below
  \<open>end_db\<close>, and \<open>- 1\<close> when there is none below \<open>len\<close>.
\<close>

lemma decay_scan_end:
  assumes "decay_scan dc i len s e st = Inr (si, ei)"
  shows "(ei = - 1 \<and> (\<forall>j. i \<le> j \<and> j < len \<longrightarrow> \<not> dc ! j \<le> e)) \<or>
         (0 \<le> ei \<and> i \<le> nat ei \<and> nat ei < len \<and> dc ! nat ei \<le> e \<and>
            (\<forall>j. i \<le> j \<and> j < nat ei \<longrightarrow> \<not> dc ! j \<le> e))"
  using assms
proof (induction dc i len s e st rule: decay_scan.induct)
  case (1 dc i len s e st)
  show ?case
  proof (cases "i < len")
    case True
    note lt = this
    have inb: "\<not> length dc \<le> i" using 1(2) lt
      by (subst (asm) decay_scan.simps) (simp split: if_splits)
    show ?thesis
    proof (cases "dc ! i \<le> e")
      case True
      have "ei = int i" using 1(2) lt inb True
        by (subst (asm) decay_scan.simps) (simp add: Let_def)
      then show ?thesis using True lt by simp
    next
      case False
      let ?st = "(if st < 0 \<and> dc ! i \<le> s \<and> dc ! i \<ge> e then int i else st)"
      have rec: "decay_scan dc (Suc i) len s e ?st = Inr (si, ei)"
        using 1(2) lt False inb
        by (subst (asm) decay_scan.simps) (simp add: Let_def)
      have ih: "(ei = - 1 \<and> (\<forall>j. Suc i \<le> j \<and> j < len \<longrightarrow> \<not> dc ! j \<le> e)) \<or>
         (0 \<le> ei \<and> Suc i \<le> nat ei \<and> nat ei < len \<and> dc ! nat ei \<le> e \<and>
            (\<forall>j. Suc i \<le> j \<and> j < nat ei \<longrightarrow> \<not> dc ! j \<le> e))"
        using 1(1)[OF lt inb refl False rec] .
      have split: "\<And>j. i \<le> j \<Longrightarrow> j = i \<or> Suc i \<le> j" by arith
      from ih show ?thesis
      proof
        assume a: "ei = - 1 \<and> (\<forall>j. Suc i \<le> j \<and> j < len \<longrightarrow> \<not> dc ! j \<le> e)"
        have "\<forall>j. i \<le> j \<and> j < len \<longrightarrow> \<not> dc ! j \<le> e"
          using a False split by blast
        then show ?thesis using a by blast
      next
        assume a: "0 \<le> ei \<and> Suc i \<le> nat ei \<and> nat ei < len \<and> dc ! nat ei \<le> e \<and>
            (\<forall>j. Suc i \<le> j \<and> j < nat ei \<longrightarrow> \<not> dc ! j \<le> e)"
        have "\<forall>j. i \<le> j \<and> j < nat ei \<longrightarrow> \<not> dc ! j \<le> e"
          using a False split by blast
        moreover have "i \<le> nat ei" using a by arith
        ultimately show ?thesis using a by blast
      qed
    qed
  next
    case False
    have "ei = - 1" using 1(2) False
      by (subst (asm) decay_scan.simps) simp
    then show ?thesis using False by simp
  qed
qed

text \<open>A start index already set is kept.\<close>

lemma decay_scan_keeps_start:
  assumes "decay_scan dc i len s e st = Inr (si, ei)" "0 \<le> st"
  shows "si = st"
  using assms
proof (induction dc i len s e st rule: decay_scan.induct)
  case (1 dc i len s e st)
  show ?case
  proof (cases "i < len")
    case True
    note lt = this
    have inb: "\<not> length dc \<le> i" using 1(2) lt
      by (subst (asm) decay_scan.simps) (simp split: if_splits)
    show ?thesis
    proof (cases "dc ! i \<le> e")
      case True
      then show ?thesis using 1(2,3) lt inb
        by (subst (asm) decay_scan.simps) (simp add: Let_def)
    next
      case False
      have rec: "decay_scan dc (Suc i) len s e st = Inr (si, ei)"
        using 1(2,3) lt False inb
        by (subst (asm) decay_scan.simps) (simp add: Let_def)
      have "(if st < 0 \<and> dc ! i \<le> s \<and> dc ! i \<ge> e then int i else st) = st"
        using 1(3) by simp
      then show ?thesis using 1(1)[OF lt inb refl False] rec 1(3) by simp
    qed
  next
    case False
    then show ?thesis using 1(2)
      by (subst (asm) decay_scan.simps) simp
  qed
qed

text \<open>
  A start index found by the scan is the first index from \<open>i\<close> on whose value lies
  between \<open>end_db\<close> and \<open>start_db\<close>, and it is not beyond the end index.
\<close>

lemma decay_scan_start:
  assumes "decay_scan dc i len s e st = Inr (si, ei)" "st < 0" "0 \<le> si"
  shows "i \<le> nat si \<and> nat si < len \<and> dc ! nat si \<le> s \<and> e \<le> dc ! nat si \<and>
         (\<forall>j. i \<le> j \<and> j < nat si \<longrightarrow> \<not> (dc ! j \<le> s \<and> e \<le> dc ! j)) \<and>
         (0 \<le> ei \<longrightarrow> si \<le> ei)"
  using assms
proof (induction dc i len s e st rule: decay_scan.induct)
  case (1 dc i len s e st)
  show ?case
  proof (cases "i < len")
    case True
    note lt = this
    have inb: "\<not> length dc \<le> i" using 1(2) lt
      by (subst (asm) decay_scan.simps) (simp split: if_splits)
    let ?hit = "dc ! i \<le> s \<and> dc ! i \<ge> e"
    show ?thesis
    proof (cases "dc ! i \<le> e")
      case True
      have eq: "ei = int i \<and> si = (if ?hit then int i else st)" using 1(2,3) lt inb True
        by (subst (asm) decay_scan.simps) (simp add: Let_def)
      have hit: ?hit
      proof (rule ccontr)
        assume "\<not> ?hit"
        then have "si = st" using eq by auto
        then show False using 1(3,4) by simp
      qed
      then have "si = int i" using eq by simp
      then show ?thesis using hit lt eq by simp
    next
      case False
      note nend = this
      show ?thesis
      proof (cases ?hit)
        case True
        have rec: "decay_scan dc (Suc i) len s e (int i) = Inr (si, ei)"
          using 1(2,3) lt nend inb True
          by (subst (asm) decay_scan.simps) (simp add: Let_def)
        have si: "si = int i" using decay_scan_keeps_start [OF rec] by simp
        from decay_scan_end [OF rec]
        have "ei = - 1 \<or> (0 \<le> ei \<and> Suc i \<le> nat ei)" by blast
        then have "0 \<le> ei \<longrightarrow> si \<le> ei" using si by arith
        then show ?thesis using si True lt by simp
      next
        case False
        have rec: "decay_scan dc (Suc i) len s e st = Inr (si, ei)"
          using 1(2,3) lt nend inb False
          by (subst (asm) decay_scan.simps) (auto simp add: Let_def)
        have st: "(if st < 0 \<and> dc ! i \<le> s \<and> dc ! i \<ge> e then int i else st) = st"
          using False by auto
        have rec': "decay_scan dc (Suc i) len s e
            (if st < 0 \<and> dc ! i \<le> s \<and> dc ! i \<ge> e then int i else st) = Inr (si, ei)"
          by (subst st) (rule rec)
        have neg': "(if st < 0 \<and> dc ! i \<le> s \<and> dc ! i \<ge> e then int i else st) < 0"
          by (subst st) (rule 1(3))
        note ih = 1(1)[OF lt inb refl nend rec' neg' 1(4)]
        have "\<not> (dc ! j \<le> s \<and> e \<le> dc ! j)" if "i \<le> j" "j < nat si" for j
        proof (cases "j = i")
          case True
          then show ?thesis using False by simp
        next
          case False
          then have "Suc i \<le> j" using that by arith
          then show ?thesis using ih that by blast
        qed
        then have "\<forall>j. i \<le> j \<and> j < nat si \<longrightarrow> \<not> (dc ! j \<le> s \<and> e \<le> dc ! j)"
          by blast
        moreover have "i \<le> nat si" using ih by arith
        ultimately show ?thesis using ih by blast
      qed
    qed
  next
    case False
    then have "si = st" using 1(2)
      by (subst (asm) decay_scan.simps) simp
    then show ?thesis using 1(3,4) by simp
  qed
qed

text \<open>Conversely, the scan finds an interval given by its defining conditions.\<close>

lemma decay_scan_found:
  assumes "ei < len" "len \<le> length dc"
    and "\<forall>j < ei. \<not> dc ! j \<le> e" "dc ! ei \<le> e"
    and "si \<le> ei"
    and "\<forall>j < si. \<not> (dc ! j \<le> s \<and> dc ! j \<ge> e)"
    and "dc ! si \<le> s \<and> dc ! si \<ge> e"
    and "i \<le> ei"
    and "st = (if i \<le> si then - 1 else int si)"
  shows "decay_scan dc i len s e st = Inr (int si, int ei)"
  using assms(8,9)
proof (induction "ei - i" arbitrary: i st)
  case 0
  then have "i = ei" by simp
  then show ?case using assms(1-7) 0
    by (subst decay_scan.simps) (auto simp add: Let_def)
next
  case (Suc k)
  then have lt: "i < ei" by arith
  have ne: "\<not> dc ! i \<le> e" using assms(3) lt by blast
  let ?st = "(if st < 0 \<and> dc ! i \<le> s \<and> dc ! i \<ge> e then int i else st)"
  have st': "?st = (if Suc i \<le> si then - 1 else int si)"
  proof (cases "i < si")
    case True
    then show ?thesis using assms(6) Suc.prems by auto
  next
    case False
    show ?thesis
    proof (cases "i = si")
      case True
      then show ?thesis using assms(7) Suc.prems by auto
    next
      case False
      then show ?thesis using \<open>\<not> i < si\<close> Suc.prems by auto
    qed
  qed
  have "decay_scan dc i len s e st = decay_scan dc (Suc i) len s e ?st"
    using lt ne assms(1,2) by (subst decay_scan.simps) (simp add: Let_def)
  also have "\<dots> = Inr (int si, int ei)"
    using Suc.hyps(1)[of "Suc i" ?st] Suc.hyps(2) lt st' by simp
  finally show ?case .
qed

subsection \<open>The regression\<close>

lemma regression_sums_closed:
  "regression_sums dc fs a b (sx, sy, sxy, sx2) =
     (sx + (\<Sum>i = a..b. real i / real_of_int fs),
      sy + (\<Sum>i = a..b. dc ! i),
      sxy + (\<Sum>i = a..b. real i / real_of_int fs * dc ! i),
      sx2 + (\<Sum>i = a..b. real i / real_of_int fs * (real i / real_of_int fs)))"
proof (induction dc fs a b "(sx, sy, sxy, sx2)" arbitrary: sx sy sxy sx2 rule: regression_sums.induct)
  case (1 dc fs i e sx sy sxy sx2)
  show ?case
  proof (cases "i \<le> e")
    case True
    have "regression_sums dc fs i e (sx, sy, sxy, sx2) =
          regression_sums dc fs (Suc i) e
            (sx + real i / real_of_int fs, sy + dc ! i,
             sxy + real i / real_of_int fs * dc ! i,
             sx2 + real i / real_of_int fs * (real i / real_of_int fs))"
      using True by (subst regression_sums.simps) (simp add: Let_def)
    also have "\<dots> = (sx + (\<Sum>i = i..e. real i / real_of_int fs),
      sy + (\<Sum>i = i..e. dc ! i),
      sxy + (\<Sum>i = i..e. real i / real_of_int fs * dc ! i),
      sx2 + (\<Sum>i = i..e. real i / real_of_int fs * (real i / real_of_int fs)))"
      using True by (subst 1) (simp_all add: sum.atLeast_Suc_atMost add.assoc)
    finally show ?thesis .
  next
    case False
    then show ?thesis by (subst regression_sums.simps) simp
  qed
qed

text \<open>
  \<^verbatim>\<open>denominator\<close> and \<^verbatim>\<open>slope\<close> are the two parts of the least-squares slope of the
  curve against the time \<open>i / fs\<close> over the indices \<open>start_idx .. end_idx\<close>.
\<close>

lemma denominator_closed:
  "denominator dc fs si ei =
     real_of_int (ei - si + 1) *
       (\<Sum>i = nat si..nat ei. real i / real_of_int fs * (real i / real_of_int fs))
     - (\<Sum>i = nat si..nat ei. real i / real_of_int fs) *
       (\<Sum>i = nat si..nat ei. real i / real_of_int fs)"
  by (simp add: denominator_def regression_sums_closed)

lemma slope_closed:
  "slope dc fs si ei =
     (real_of_int (ei - si + 1) * (\<Sum>i = nat si..nat ei. real i / real_of_int fs * dc ! i)
      - (\<Sum>i = nat si..nat ei. real i / real_of_int fs) * (\<Sum>i = nat si..nat ei. dc ! i))
     / denominator dc fs si ei"
  by (simp add: slope_def regression_sums_closed)

lemma sum_cross_identity:
  fixes x y :: "nat \<Rightarrow> real"
  shows "(\<Sum>j\<in>S. \<Sum>k\<in>S. (x j - x k) * (y j - y k)) =
         2 * (real (card S) * (\<Sum>j\<in>S. x j * y j) - (\<Sum>j\<in>S. x j) * (\<Sum>j\<in>S. y j))"
proof -
  have a: "(\<Sum>j\<in>S. \<Sum>k\<in>S. x j * y j) = real (card S) * (\<Sum>j\<in>S. x j * y j)"
    by (simp add: sum_distrib_left)
  have b: "(\<Sum>j\<in>S. \<Sum>k\<in>S. x k * y k) = real (card S) * (\<Sum>j\<in>S. x j * y j)"
    by simp
  have c: "(\<Sum>j\<in>S. \<Sum>k\<in>S. x j * y k) = (\<Sum>j\<in>S. x j) * (\<Sum>j\<in>S. y j)"
    by (simp add: sum_product)
  have d: "(\<Sum>j\<in>S. \<Sum>k\<in>S. x k * y j) = (\<Sum>j\<in>S. x j) * (\<Sum>j\<in>S. y j)"
    by (subst sum.swap) (simp add: sum_product)
  have "(\<Sum>j\<in>S. \<Sum>k\<in>S. (x j - x k) * (y j - y k)) =
        (\<Sum>j\<in>S. \<Sum>k\<in>S. x j * y j) - (\<Sum>j\<in>S. \<Sum>k\<in>S. x j * y k)
        - (\<Sum>j\<in>S. \<Sum>k\<in>S. x k * y j) + (\<Sum>j\<in>S. \<Sum>k\<in>S. x k * y k)"
    by (simp add: algebra_simps sum.distrib sum_subtractf)
  then show ?thesis using a b c d by simp
qed

lemma covariance_strictly_negative:
  fixes x y :: "nat \<Rightarrow> real"
  assumes ab: "a < b"
    and xinc: "\<And>i j. a \<le> i \<Longrightarrow> i < j \<Longrightarrow> j \<le> b \<Longrightarrow> x i < x j"
    and ydec: "\<And>i j. a \<le> i \<Longrightarrow> i < j \<Longrightarrow> j \<le> b \<Longrightarrow> y j < y i"
  shows "real (b - a + 1) * (\<Sum>i = a..b. x i * y i) - (\<Sum>i = a..b. x i) * (\<Sum>i = a..b. y i) < 0"
proof -
  let ?S = "{a..b}"
  let ?t = "\<lambda>j k. (x j - x k) * (y j - y k)"
  have term_le: "?t j k \<le> 0" if "j \<in> ?S" "k \<in> ?S" for j k
  proof -
    consider "j < k" | "j = k" | "k < j" by arith
    then show ?thesis
    proof cases
      case 1
      then have "x j < x k" "y k < y j" using that xinc ydec by auto
      then show ?thesis by (simp add: mult_le_0_iff)
    next
      case 2
      then show ?thesis by simp
    next
      case 3
      then have "x k < x j" "y j < y k" using that xinc ydec by auto
      then show ?thesis by (simp add: mult_le_0_iff)
    qed
  qed
  have inner_le: "(\<Sum>k\<in>?S. ?t j k) \<le> 0" if "j \<in> ?S" for j
  proof (rule sum_nonpos)
    fix k assume "k \<in> ?S"
    then show "?t j k \<le> 0" using term_le that by blast
  qed
  have tab: "?t a b < 0"
  proof -
    have "x a < x b" "y b < y a" using ab xinc ydec by auto
    then show ?thesis by (simp add: mult_less_0_iff)
  qed
  have "(\<Sum>k\<in>?S. ?t a k) = ?t a b + (\<Sum>k\<in>?S - {b}. ?t a k)"
    using ab by (intro sum.remove) auto
  moreover have "(\<Sum>k\<in>?S - {b}. ?t a k) \<le> 0"
  proof (rule sum_nonpos)
    fix k assume "k \<in> ?S - {b}"
    then show "?t a k \<le> 0" using term_le [of a k] ab by simp
  qed
  ultimately have inner_a: "(\<Sum>k\<in>?S. ?t a k) < 0" using tab by linarith
  have "(\<Sum>j\<in>?S. \<Sum>k\<in>?S. ?t j k) =
        (\<Sum>k\<in>?S. ?t a k) + (\<Sum>j\<in>?S - {a}. \<Sum>k\<in>?S. ?t j k)"
    using ab by (intro sum.remove) auto
  moreover have "(\<Sum>j\<in>?S - {a}. \<Sum>k\<in>?S. ?t j k) \<le> 0"
  proof (rule sum_nonpos)
    fix j assume "j \<in> ?S - {a}"
    then show "(\<Sum>k\<in>?S. ?t j k) \<le> 0" using inner_le by simp
  qed
  ultimately have "(\<Sum>j\<in>?S. \<Sum>k\<in>?S. ?t j k) < 0" using inner_a by linarith
  moreover have "card ?S = b - a + 1" using ab by simp
  ultimately show ?thesis using sum_cross_identity [of x y ?S] by simp
qed

lemma slope_negative:
  assumes "0 \<le> si" "si < ei" "0 < fs"
    and dec: "\<And>i j. nat si \<le> i \<Longrightarrow> i < j \<Longrightarrow> j \<le> nat ei \<Longrightarrow> dc ! j < dc ! i"
  shows "0 < denominator dc fs si ei \<and> slope dc fs si ei < 0"
proof -
  let ?a = "nat si" and ?b = "nat ei"
  let ?x = "\<lambda>i. real i / real_of_int fs"
  have ab: "?a < ?b" using assms by simp
  have n: "real_of_int (ei - si + 1) = real (?b - ?a + 1)" using assms by simp
  have xinc: "?x i < ?x j" if "i < j" for i j :: nat
    using that assms(3) by (simp add: divide_strict_right_mono)
  have xinc': "\<And>i j. ?a \<le> i \<Longrightarrow> i < j \<Longrightarrow> j \<le> ?b \<Longrightarrow> ?x i < ?x j"
    using xinc by blast
  have num: "real (?b - ?a + 1) * (\<Sum>i = ?a..?b. ?x i * dc ! i)
             - (\<Sum>i = ?a..?b. ?x i) * (\<Sum>i = ?a..?b. dc ! i) < 0"
    using ab xinc' dec by (rule covariance_strictly_negative)
  have xdec: "\<And>i j. ?a \<le> i \<Longrightarrow> i < j \<Longrightarrow> j \<le> ?b \<Longrightarrow> - ?x j < - ?x i"
    using xinc by simp
  have "real (?b - ?a + 1) * (\<Sum>i = ?a..?b. ?x i * (- ?x i))
             - (\<Sum>i = ?a..?b. ?x i) * (\<Sum>i = ?a..?b. - ?x i) < 0"
    using ab xinc' xdec by (rule covariance_strictly_negative)
  moreover have "(\<Sum>i = ?a..?b. ?x i * (- ?x i)) = - (\<Sum>i = ?a..?b. ?x i * ?x i)"
    by (simp add: sum_negf)
  moreover have "(\<Sum>i = ?a..?b. - ?x i) = - (\<Sum>i = ?a..?b. ?x i)"
    by (simp add: sum_negf)
  ultimately have "0 < real (?b - ?a + 1) * (\<Sum>i = ?a..?b. ?x i * ?x i)
                       - (\<Sum>i = ?a..?b. ?x i) * (\<Sum>i = ?a..?b. ?x i)"
    by simp
  then have den: "0 < denominator dc fs si ei"
    unfolding denominator_closed n .
  have "slope dc fs si ei < 0"
    unfolding slope_closed n using num den by (rule divide_neg_pos)
  then show ?thesis using den by simp
qed

subsection \<open>calculate\_decay\_time\<close>

lemma calculate_decay_time_total:
  assumes "len \<le> length dc" "fs \<noteq> 0"
  shows "\<exists>r si ei. calculate_decay_time dc len fs s e = Inr (r, si, ei)"
proof -
  obtain si ei where "decay_scan dc 0 len s e (- 1) = Inr (si, ei)"
    using decay_scan_total [OF assms(1)] by blast
  then show ?thesis using assms(2)
    by (simp add: calculate_decay_time_def Let_def)
qed

text \<open>
  When the scan and the regression succeed, the value returned is \<open>- 60 / slope\<close>:
  the time the fitted line needs for 60 dB, whatever \<open>start_db\<close> and \<open>end_db\<close> are.
\<close>

lemma calculate_decay_time_success:
  assumes "decay_scan dc 0 len s e (- 1) = Inr (si, ei)"
    and "0 \<le> si" "si < ei" "fs \<noteq> 0"
    and "1 / 10 ^ 10 \<le> \<bar>denominator dc fs si ei\<bar>"
    and "slope dc fs si ei < 0"
  shows "calculate_decay_time dc len fs s e = Inr (60 / \<bar>slope dc fs si ei\<bar>, si, ei)"
  using assms by (simp add: calculate_decay_time_def Let_def)

text \<open>
  Claim C3, as the code has it. With \<open>(start_idx, end_idx)\<close> the result of the scan:
  when the interval is missing (start not found, end not found, or end not after
  start), or the regression denominator is below \<open>1e-10\<close> in magnitude, or the
  fitted slope is not negative, \<^verbatim>\<open>calculate_decay_time\<close> returns \<open>- 1\<close>. In particular
  a decay curve that never decreases (a constant one, say) returns \<open>- 1\<close>.
\<close>

theorem calculate_decay_time_returns_minus_one:
  assumes "decay_scan decay_curve 0 len start_db end_db (- 1) = Inr (start_idx, end_idx)"
  shows
    "(start_idx < 0 \<or> end_idx < 0 \<or> end_idx \<le> start_idx \<or>
      (fs \<noteq> 0 \<and> (\<bar>denominator decay_curve fs start_idx end_idx\<bar> < 1 / 10 ^ 10 \<or>
                  0 \<le> slope decay_curve fs start_idx end_idx))
      \<longrightarrow> calculate_decay_time decay_curve len fs start_db end_db = Inr (- 1, start_idx, end_idx)) \<and>
     ((\<forall>i j. i \<le> j \<and> j < len \<longrightarrow> decay_curve ! i \<le> decay_curve ! j)
      \<longrightarrow> calculate_decay_time decay_curve len fs start_db end_db = Inr (- 1, start_idx, end_idx))"
proof (intro conjI impI)
  assume "start_idx < 0 \<or> end_idx < 0 \<or> end_idx \<le> start_idx \<or>
      (fs \<noteq> 0 \<and> (\<bar>denominator decay_curve fs start_idx end_idx\<bar> < 1 / 10 ^ 10 \<or>
                  0 \<le> slope decay_curve fs start_idx end_idx))"
  then show "calculate_decay_time decay_curve len fs start_db end_db = Inr (- 1, start_idx, end_idx)"
    using assms by (auto simp add: calculate_decay_time_def Let_def)
next
  assume mono: "\<forall>i j. i \<le> j \<and> j < len \<longrightarrow> decay_curve ! i \<le> decay_curve ! j"
  have "start_idx < 0 \<or> end_idx < 0 \<or> end_idx \<le> start_idx"
  proof (rule ccontr)
    assume "\<not> (start_idx < 0 \<or> end_idx < 0 \<or> end_idx \<le> start_idx)"
    then have s: "0 \<le> start_idx" and e: "0 \<le> end_idx" and lt: "start_idx < end_idx" by auto
    from decay_scan_end [OF assms] e
    have e1: "nat end_idx < len" and e2: "decay_curve ! nat end_idx \<le> end_db"
      and e3: "\<forall>j. 0 \<le> j \<and> j < nat end_idx \<longrightarrow> \<not> decay_curve ! j \<le> end_db"
      by auto
    have "\<not> decay_curve ! nat start_idx \<le> end_db" using e3 s lt by simp
    moreover have "decay_curve ! nat start_idx \<le> decay_curve ! nat end_idx"
      using mono s lt e1 by simp
    ultimately show False using e2 by linarith
  qed
  then show "calculate_decay_time decay_curve len fs start_db end_db = Inr (- 1, start_idx, end_idx)"
    using assms by (simp add: calculate_decay_time_def Let_def)
qed

text \<open>
  The theorem at a curve that starts inside the window, rises, and drops to
  \<open>- 15 dB\<close> at its last entry: the interval \<open>0 .. 6\<close> is found, the fitted slope is
  positive, and the result is \<open>- 1\<close>. And at a constant curve: no end index, result
  \<open>- 1\<close>.
\<close>

theorem calculate_decay_time_returns_minus_one_witness:
  "decay_scan [- 14, - 14, - 14, 0, 0, 0, - 15] 0 7 (- 5) (- 15) (- 1) = Inr (0, 6) \<and>
   0 \<le> slope [- 14, - 14, - 14, 0, 0, 0, - 15] 48000 0 6 \<and>
   calculate_decay_time [- 14, - 14, - 14, 0, 0, 0, - 15] 7 48000 (- 5) (- 15) = Inr (- 1, 0, 6) \<and>
   calculate_decay_time [- 10, - 10, - 10] 3 48000 (- 5) (- 15) = Inr (- 1, 0, - 1)"
proof -
  have scan1: "decay_scan [- 14, - 14, - 14, 0, 0, 0, - 15] 0 7 (- 5) (- 15) (- 1) = Inr (0, 6)"
    by (simp add: decay_scan.simps Let_def)
  have sl: "0 \<le> slope [- 14, - 14, - 14, 0, 0, 0, - 15] 48000 0 6"
    by (simp add: slope_def denominator_def regression_sums.simps Let_def)
  have r1: "calculate_decay_time [- 14, - 14, - 14, 0, 0, 0, - 15] 7 48000 (- 5) (- 15) = Inr (- 1, 0, 6)"
    using calculate_decay_time_returns_minus_one [OF scan1, of 48000] sl by simp
  have scan2: "decay_scan [- 10, - 10, - 10] 0 3 (- 5) (- 15) (- 1) = Inr (0, - 1)"
    by (simp add: decay_scan.simps Let_def)
  have flat: "[- 10, - 10, - 10 :: real] ! k = - 10" if "k < 3" for k
    using that by (auto simp add: less_Suc_eq numeral_3_eq_3)
  have mono: "\<forall>i j. i \<le> j \<and> j < 3 \<longrightarrow> [- 10, - 10, - 10 :: real] ! i \<le> [- 10, - 10, - 10] ! j"
  proof (intro allI impI)
    fix i j :: nat assume "i \<le> j \<and> j < 3"
    then have "i < 3" "j < 3" by auto
    then show "[- 10, - 10, - 10 :: real] ! i \<le> [- 10, - 10, - 10] ! j"
      by (simp only: flat)
  qed
  have r2: "calculate_decay_time [- 10, - 10, - 10] 3 48000 (- 5) (- 15) = Inr (- 1, 0, - 1)"
    using calculate_decay_time_returns_minus_one [OF scan2, of 48000] mono by blast
  show ?thesis using scan1 sl r1 r2 by simp
qed

subsection \<open>Decibel thresholds\<close>

text \<open>\<open>10 * log 10 r\<close> against a threshold of \<open>- 5 k\<close> dB, without logarithms.\<close>

lemma db_le_iff:
  assumes "0 < r"
  shows "(10 * log 10 r \<le> - (5 * real k)) = (r * r \<le> 1 / 10 ^ k)"
proof -
  have a: "log 10 (r * r) = 2 * log 10 r" using assms by (simp add: log_mult)
  have b: "log 10 (1 / 10 ^ k) = - real k" by (simp add: log_divide)
  have "(10 * log 10 r \<le> - (5 * real k)) = (log 10 (r * r) \<le> log 10 (1 / 10 ^ k))"
    unfolding a b by auto
  also have "\<dots> = (r * r \<le> 1 / 10 ^ k)"
    using assms by (subst log_le_cancel_iff) simp_all
  finally show ?thesis .
qed

lemma sq_le_102: "(10 * (m * m) \<le> (1024::nat)) = (m \<le> 10)"
proof
  assume a: "10 * (m * m) \<le> 1024"
  show "m \<le> 10"
  proof (rule ccontr)
    assume "\<not> m \<le> 10"
    then have h: "11 \<le> m" by simp
    from h h have "11 * 11 \<le> m * m" by (rule mult_le_mono)
    then show False using a by simp
  qed
next
  assume h: "m \<le> 10"
  from h h have "m * m \<le> 10 * 10" by (rule mult_le_mono)
  then show "10 * (m * m) \<le> 1024" by simp
qed

lemma sq_le_1: "(1000 * (m * m) \<le> (1024::nat)) = (m \<le> 1)"
proof
  assume a: "1000 * (m * m) \<le> 1024"
  show "m \<le> 1"
  proof (rule ccontr)
    assume "\<not> m \<le> 1"
    then have h: "2 \<le> m" by simp
    from h h have "2 * 2 \<le> m * m" by (rule mult_le_mono)
    then show False using a by simp
  qed
next
  assume h: "m \<le> 1"
  from h h have "m * m \<le> 1 * 1" by (rule mult_le_mono)
  then show "1000 * (m * m) \<le> 1024" by simp
qed

subsection \<open>A constant-magnitude impulse response\<close>

lemma energy_replicate:
  assumes "i < n" "n \<le> length dc"
  shows "schroeder_energy (replicate n c) n 0 dc ! i =
           real (n - i) * ((real_of_int (sint c) / 32768) * (real_of_int (sint c) / 32768))"
proof -
  have "(\<Sum>k = i..<n. sq_sample (replicate n c) k) =
        (\<Sum>k = i..<n. (real_of_int (sint c) / 32768) * (real_of_int (sint c) / 32768))"
    by (rule sum.cong) (simp_all add: sq_sample_def)
  then show ?thesis using assms by (simp add: energy_tail_sum)
qed

lemma schroeder_integral_replicate:
  assumes c: "sint c \<noteq> 0" and n: "0 < n" and len: "length dc = n"
  shows "\<exists>curve. schroeder_integral (replicate n c) n dc = Inr curve \<and> length curve = n \<and>
           (\<forall>i. i < n \<longrightarrow> curve ! i = 10 * log 10 (real (n - i) / real n))"
proof -
  define q where "q = (real_of_int (sint c) / 32768) * (real_of_int (sint c) / 32768)"
  let ?en = "schroeder_energy (replicate n c) n 0 dc"
  have "real_of_int (sint c) / 32768 \<noteq> 0" using c by (simp del: of_int_sint)
  then have q: "0 < q" unfolding q_def using not_real_square_gt_zero by blast
  have en: "?en ! i = real (n - i) * q" if "i < n" for i
    unfolding q_def using that len by (intro energy_replicate) simp_all
  have en0: "?en ! 0 = real n * q" using en [of 0] n by simp
  have pos0: "0 < ?en ! 0" unfolding en0 using n q by simp
  have eq: "schroeder_integral (replicate n c) n dc = Inr (schroeder_db (?en ! 0) 0 n ?en)"
    using n len pos0 by (intro schroeder_integral_Inr) simp_all
  have "schroeder_db (?en ! 0) 0 n ?en ! i = 10 * log 10 (real (n - i) / real n)" if "i < n" for i
  proof -
    have posi: "0 < ?en ! i" unfolding en [OF that] using that q by simp
    have "?en ! i / ?en ! 0 = real (n - i) / real n"
      unfolding en [OF that] en0 using q by simp
    then show ?thesis using that len posi by (simp add: schroeder_db_nth)
  qed
  then show ?thesis using eq len by simp
qed

lemma curve32_le5:
  assumes "i < 32"
  shows "(10 * log 10 (real (32 - i) / real 32) \<le> - 5) = (22 \<le> i)"
proof -
  let ?m = "32 - i"
  have pos: "0 < real ?m / real 32" using assms by simp
  have "(10 * log 10 (real ?m / real 32) \<le> - (5 * real 1)) =
        (real ?m / real 32 * (real ?m / real 32) \<le> 1 / 10 ^ 1)"
    using pos by (rule db_le_iff)
  also have "\<dots> = (real (10 * (?m * ?m)) \<le> real 1024)"
    by (simp add: field_simps)
  also have "\<dots> = (10 * (?m * ?m) \<le> 1024)" by (rule of_nat_le_iff)
  also have "\<dots> = (?m \<le> 10)" by (rule sq_le_102)
  also have "\<dots> = (22 \<le> i)" using assms by arith
  finally show ?thesis by simp
qed

lemma curve32_le15:
  assumes "i < 32"
  shows "(10 * log 10 (real (32 - i) / real 32) \<le> - 15) = (31 \<le> i)"
proof -
  let ?m = "32 - i"
  have pos: "0 < real ?m / real 32" using assms by simp
  have "(10 * log 10 (real ?m / real 32) \<le> - (5 * real 3)) =
        (real ?m / real 32 * (real ?m / real 32) \<le> 1 / 10 ^ 3)"
    using pos by (rule db_le_iff)
  also have "\<dots> = (real (1000 * (?m * ?m)) \<le> real 1024)"
    by (simp add: field_simps)
  also have "\<dots> = (1000 * (?m * ?m) \<le> 1024)" by (rule of_nat_le_iff)
  also have "\<dots> = (?m \<le> 1)" by (rule sq_le_1)
  also have "\<dots> = (31 \<le> i)" using assms by arith
  finally show ?thesis by simp
qed

lemma constant_ir_t10:
  assumes curve: "length curve = 32"
    "\<And>i. i < 32 \<Longrightarrow> curve ! i = 10 * log 10 (real (32 - i) / real 32)"
  shows "calculate_decay_time curve 32 48000 (- 5) (- 15) =
           Inr (60 / \<bar>slope curve 48000 22 31\<bar>, 22, 31) \<and> slope curve 48000 22 31 < 0"
proof -
  have le5: "(curve ! i \<le> - 5) = (22 \<le> i)" if "i < 32" for i
    using that by (simp only: curve curve32_le5)
  have le15: "(curve ! i \<le> - 15) = (31 \<le> i)" if "i < 32" for i
    using that by (simp only: curve curve32_le15)
  have scan: "decay_scan curve 0 32 (- 5) (- 15) (- 1) = Inr (int 22, int 31)"
  proof (rule decay_scan_found)
    show "(31::nat) < 32" by simp
    show "32 \<le> length curve" using curve(1) by simp
    show "\<forall>j < 31. \<not> curve ! j \<le> - 15" using le15 by simp
    show "curve ! 31 \<le> - 15" using le15 [of 31] by simp
    show "(22::nat) \<le> 31" by simp
    show "\<forall>j < 22. \<not> (curve ! j \<le> - 5 \<and> - 15 \<le> curve ! j)" using le5 by simp
    have "\<not> curve ! 22 \<le> - 15" using le15 [of 22] by simp
    then show "curve ! 22 \<le> - 5 \<and> - 15 \<le> curve ! 22" using le5 [of 22] by simp
    show "(0::nat) \<le> 31" by simp
    show "(- 1 :: int) = (if (0::nat) \<le> 22 then - 1 else int 22)" by simp
  qed
  have dec: "curve ! j < curve ! i" if "nat 22 \<le> i" "i < j" "j \<le> nat 31" for i j
  proof -
    have "real (32 - j) / real 32 < real (32 - i) / real 32" using that by simp
    moreover have "0 < real (32 - j) / real 32" using that by simp
    ultimately have "10 * log 10 (real (32 - j) / real 32) < 10 * log 10 (real (32 - i) / real 32)"
      by simp
    then show ?thesis using that by (simp add: curve)
  qed
  have sl: "0 < denominator curve 48000 22 31 \<and> slope curve 48000 22 31 < 0"
    by (rule slope_negative) (simp_all add: dec)
  have den: "denominator curve 48000 22 31 = 825 / (48000 * 48000)"
    by (simp add: denominator_closed sum.atLeast_Suc_atMost)
  have "calculate_decay_time curve 32 48000 (- 5) (- 15) =
           Inr (60 / \<bar>slope curve 48000 22 31\<bar>, 22, 31)"
    using scan sl by (intro calculate_decay_time_success) (simp_all add: den)
  then show ?thesis using sl by simp
qed

text \<open>
  Claim C3 as the specification words it adds that a constant-magnitude impulse
  response never yields a positive decay time. The Schroeder curve of such a
  response is \<open>10 * log 10 ((n - i) / n)\<close>: it does decay. For 32 samples of value
  \<open>1000\<close> at 48 kHz the T10 scan finds the interval \<open>22 .. 31\<close>, the fitted slope is
  negative, and \<^verbatim>\<open>main\<close> obtains a positive \<open>t10\<close>.
\<close>

theorem constant_magnitude_counterexample:
  "\<not> isl (ir_analyze (replicate 32 1000) 48000 (replicate 32 0)) \<and>
   0 < t10 (projr (ir_analyze (replicate 32 1000) 48000 (replicate 32 0)))"
proof -
  have "sint (1000 :: int16) \<noteq> 0" by simp
  then obtain curve where c:
    "schroeder_integral (replicate 32 1000) 32 (replicate 32 0) = Inr curve"
    "length curve = 32"
    "\<forall>i. i < 32 \<longrightarrow> curve ! i = 10 * log 10 (real (32 - i) / real 32)"
    using schroeder_integral_replicate [of 1000 32 "replicate 32 0"] by auto
  have first: "calculate_decay_time curve 32 48000 (- 5) (- 15) =
           Inr (60 / \<bar>slope curve 48000 22 31\<bar>, 22, 31)"
    and neg: "slope curve 48000 22 31 < 0"
    using constant_ir_t10 [of curve] c by simp_all
  obtain r si ei where second: "calculate_decay_time curve 32 48000 (- 5) (- 25) = Inr (r, si, ei)"
    using calculate_decay_time_total [of 32 curve 48000 "- 5" "- 25"] c(2) by auto
  have "ir_analyze (replicate 32 1000) 48000 (replicate 32 0) =
        Inr \<lparr> t10 = 60 / \<bar>slope curve 48000 22 31\<bar>,
              rt60_t10 = 60 / \<bar>slope curve 48000 22 31\<bar> * 6,
              t20 = r, rt60_t20 = (if r > 0 then r * 3 else - 1) \<rparr>"
    using c(1) first second neg by (simp add: ir_analyze_def)
  then show ?thesis using neg by simp
qed

subsection \<open>What calculate\_decay\_time returns on success\<close>

text \<open>
  Claim C1 reads the returned value as the time the fitted line takes from
  \<open>start_db\<close> to \<open>end_db\<close>, that is \<open>(start_db - end_db) / \<bar>slope\<bar>\<close>, which \<^verbatim>\<open>main\<close>
  then multiplies by 6 (T10) or 3 (T20). The function returns \<open>- 60 / slope\<close>
  instead (lemma \<open>calculate_decay_time_success\<close>). On the curve
  \<open>0, - 10, - 20 dB\<close> sampled at 1 Hz with the window \<open>- 5 \<rightarrow> - 15 dB\<close> the fitted
  slope is \<open>- 10 dB/s\<close>: the claim's value is \<open>1 s\<close>, the code returns \<open>6 s\<close>.
\<close>

theorem calculate_decay_time_code_value:
  "slope [0, - 10, - 20] 1 1 2 = - 10 \<and>
   calculate_decay_time [0, - 10, - 20] 3 1 (- 5) (- 15) = Inr (6, 1, 2) \<and>
   calculate_decay_time [0, - 10, - 20] 3 1 (- 5) (- 15) \<noteq>
     Inr (((- 5) - (- 15)) / \<bar>slope [0, - 10, - 20] 1 1 2\<bar>, 1, 2)"
  by (simp add: calculate_decay_time_def denominator_def slope_def decay_scan.simps
      regression_sums.simps Let_def)

section \<open>Properties of tsp\_to\_ir.c and tsp\_gen.c\<close>

subsection \<open>Copying the samples into the FFT buffers\<close>

lemma length_copy_samples [simp]:
  "length (copy_samples i n st samples buf) = length buf"
  by (induction i n st samples buf rule: copy_samples.induct)
     (subst copy_samples.simps, simp)

lemma copy_samples_nth:
  "j < length buf \<Longrightarrow>
   copy_samples i n st samples buf ! j =
     (if i \<le> j \<and> j < n
      then complex_of_real (real_of_int (sint (samples ! (st + j))) / 32768)
      else buf ! j)"
proof (induction i n st samples buf rule: copy_samples.induct)
  case (1 i n st samples buf)
  show ?case
  proof (cases "i < n")
    case True
    show ?thesis
    proof (cases "j = i")
      case True
      then show ?thesis using 1 \<open>i < n\<close>
        by (subst copy_samples.simps) (simp add: nth_list_update del: of_int_sint)
    next
      case False
      then show ?thesis using 1 \<open>i < n\<close>
        by (subst copy_samples.simps) (auto simp add: nth_list_update simp del: of_int_sint)
    qed
  next
    case False
    then have out: "\<not> (i \<le> j \<and> j < n)" by arith
    have eq: "copy_samples i n st samples buf = buf"
      using False by (subst copy_samples.simps) simp
    show ?thesis unfolding eq by (simp only: out if_False)
  qed
qed

text \<open>
  Claim C5. Entry \<open>i\<close> of the buffer handed to the FFT is response sample
  \<open>tsp_len + i\<close> when the response has at least \<open>2 * tsp_len\<close> samples, and response
  sample \<open>i\<close> otherwise, each divided by 32768; entries past the copied samples
  (at most \<open>N\<close> of them) are the zeros of \<^verbatim>\<open>calloc\<close>.
\<close>

theorem response_offset:
  assumes "i < N"
  shows
    "(length response_samples \<ge> 2 * tsp_len \<longrightarrow>
        RESPONSE_time tsp_len response_samples N ! i =
          (if i < length response_samples - tsp_len
           then complex_of_real (real_of_int (sint (response_samples ! (tsp_len + i))) / 32768)
           else 0)) \<and>
     (length response_samples < 2 * tsp_len \<longrightarrow>
        RESPONSE_time tsp_len response_samples N ! i =
          (if i < length response_samples
           then complex_of_real (real_of_int (sint (response_samples ! (0 + i))) / 32768)
           else 0))"
proof (intro conjI impI)
  assume two: "length response_samples \<ge> 2 * tsp_len"
  then have st: "response_start_idx tsp_len (length response_samples) = tsp_len"
    by (simp add: response_start_idx_def)
  have "(i < response_copy_len tsp_len (length response_samples) N) =
        (i < length response_samples - tsp_len)"
    using assms by (simp add: response_copy_len_def st)
  then show "RESPONSE_time tsp_len response_samples N ! i =
          (if i < length response_samples - tsp_len
           then complex_of_real (real_of_int (sint (response_samples ! (tsp_len + i))) / 32768)
           else 0)"
    using assms by (simp add: RESPONSE_time_def st copy_samples_nth del: of_int_sint)
next
  assume one: "length response_samples < 2 * tsp_len"
  then have st: "response_start_idx tsp_len (length response_samples) = 0"
    by (simp add: response_start_idx_def)
  have "(i < response_copy_len tsp_len (length response_samples) N) =
        (i < length response_samples)"
    using assms by (simp add: response_copy_len_def st)
  then show "RESPONSE_time tsp_len response_samples N ! i =
          (if i < length response_samples
           then complex_of_real (real_of_int (sint (response_samples ! (0 + i))) / 32768)
           else 0)"
    using assms by (simp add: RESPONSE_time_def st copy_samples_nth del: of_int_sint)
qed

theorem response_offset_witness:
  "RESPONSE_time 2 [100, 200, 300, 400, 500] 8 ! 1 = complex_of_real (400 / 32768) \<and>
   RESPONSE_time 3 [100, 200, 300, 400, 500] 8 ! 1 = complex_of_real (200 / 32768)"
proof -
  have a: "(1::nat) < 8" by simp
  show ?thesis
    using response_offset [OF a, of 2 "[100, 200, 300, 400, 500]"]
          response_offset [OF a, of 3 "[100, 200, 300, 400, 500]"]
    by simp
qed

subsection \<open>The per-bin product\<close>

lemma length_IR_FREQ_loop [simp]:
  "length (IR_FREQ_loop k N T R F IR) = length IR"
  by (induction k N T R F IR rule: IR_FREQ_loop.induct)
     (subst IR_FREQ_loop.simps, simp add: Let_def)

lemma IR_FREQ_loop_nth:
  "j < length IR \<Longrightarrow>
   IR_FREQ_loop k N T R F IR ! j =
     (if k \<le> j \<and> j < N
      then (if cmod (T ! j) > 1 / 10 ^ 10 then R ! j * F ! j else 0)
      else IR ! j)"
proof (induction k N T R F IR rule: IR_FREQ_loop.induct)
  case (1 k N T R F IR)
  show ?case
  proof (cases "k < N")
    case True
    show ?thesis
    proof (cases "j = k")
      case True
      then show ?thesis using 1 \<open>k < N\<close>
        by (subst IR_FREQ_loop.simps) (simp add: nth_list_update Let_def)
    next
      case False
      then show ?thesis using 1 \<open>k < N\<close>
        by (subst IR_FREQ_loop.simps) (auto simp add: nth_list_update Let_def)
    qed
  next
    case False
    then have out: "\<not> (k \<le> j \<and> j < N)" by arith
    have eq: "IR_FREQ_loop k N T R F IR = IR"
      using False by (subst IR_FREQ_loop.simps) simp
    show ?thesis unfolding eq by (simp only: out if_False)
  qed
qed

text \<open>
  Claim C6. Bin \<open>k\<close> of the output spectrum is the response spectrum times the
  synthesised inverse filter when the magnitude of the excitation spectrum \<open>TSP\<close>
  at \<open>k\<close> exceeds \<open>1e-10\<close>, and zero otherwise. The test reads \<open>TSP\<close>; the factor is
  \<open>INV_FILTER\<close>.
\<close>

theorem IR_FREQ_bin:
  assumes "k < N"
  shows "IR_FREQ tsp_samples response_samples N junk ! k =
           (if cmod (TSP tsp_samples N ! k) > 1 / 10 ^ 10
            then RESPONSE (length tsp_samples) response_samples N ! k *
                 INV_FILTER N (length tsp_samples div 2) (map junk [0..<N]) ! k
            else 0)"
  using assms by (simp add: IR_FREQ_def Let_def IR_FREQ_loop_nth)

text \<open>
  The theorem of claim C6 at \<open>N = 1\<close>: with a silent excitation the bin is zeroed
  although the response times the inverse filter is \<open>1/2\<close>; with the excitation
  \<open>1/2\<close> the bin is that product.
\<close>

theorem IR_FREQ_bin_witness:
  "cmod (TSP [0] 1 ! 0) = 0 \<and>
   RESPONSE 1 [16384] 1 ! 0 * INV_FILTER 1 0 [of_nat 0] ! 0 = 1 / 2 \<and>
   IR_FREQ [0] [16384] 1 of_nat ! 0 = 0 \<and>
   IR_FREQ [16384] [16384] 1 of_nat ! 0 = 1 / 2"
proof -
  have k: "(0::nat) < 1" by simp
  have t0: "TSP [0] (Suc 0) = [0]"
    by (simp add: TSP_def TSP_time_def simple_fft_def bit_reversal.simps butterfly_stages.simps
        copy_samples.simps)
  have t1: "TSP [16384] (Suc 0) = [1 / 2]"
    by (simp add: TSP_def TSP_time_def simple_fft_def bit_reversal.simps butterfly_stages.simps
        copy_samples.simps)
  have r: "RESPONSE (Suc 0) [16384] (Suc 0) = [1 / 2]"
    by (simp add: RESPONSE_def RESPONSE_time_def response_copy_len_def response_start_idx_def
        simple_fft_def bit_reversal.simps butterfly_stages.simps copy_samples.simps)
  have f: "INV_FILTER (Suc 0) 0 [0] = [1]"
    by (simp add: INV_FILTER_def inv_theta_def chirp_loop.simps Let_def complex_eq_iff)
  show ?thesis
    using IR_FREQ_bin [OF k, of "[0]" "[16384]" of_nat]
          IR_FREQ_bin [OF k, of "[16384]" "[16384]" of_nat]
    by (simp add: t0 t1 r f)
qed

subsection \<open>The spectrum loop\<close>

lemma length_chirp_loop [simp]:
  "length (chirp_loop theta k N X) = length X"
  by (induction theta k N X rule: chirp_loop.induct)
     (subst chirp_loop.simps, simp add: Let_def)

lemma Complex_cos_sin: "Complex (cos a) (sin a) = cis a"
  by (simp add: complex_eq_iff)

lemma chirp_loop_nth:
  assumes "length X = N" "j < N"
  shows "chirp_loop theta k N X ! j =
     (if k \<le> j \<and> j \<le> N div 2 then cis (theta j)
      else if N - N div 2 < j \<and> j + k \<le> N then cnj (cis (theta (N - j)))
      else X ! j)"
  using assms
proof (induction theta k N X rule: chirp_loop.induct)
  case (1 theta k N X)
  show ?case
  proof (cases "k \<le> N div 2")
    case True
    let ?X1 = "X[k := Complex (cos (theta k)) (sin (theta k))]"
    let ?X2 = "(if k > 0 \<and> k < N div 2 then ?X1[N - k := cnj (?X1 ! k)] else ?X1)"
    have kN: "k < N" using True 1(3) by arith
    have step: "chirp_loop theta k N X = chirp_loop theta (Suc k) N ?X2"
      using True by (subst chirp_loop.simps) (simp add: Let_def)
    have len2: "length ?X2 = N" using 1(2) by simp
    have ih: "chirp_loop theta (Suc k) N ?X2 ! j =
     (if Suc k \<le> j \<and> j \<le> N div 2 then cis (theta j)
      else if N - N div 2 < j \<and> j + Suc k \<le> N then cnj (cis (theta (N - j)))
      else ?X2 ! j)"
      using 1(1)[OF True refl refl len2 1(3)] .
    have x1k: "?X1 ! k = cis (theta k)"
      using kN 1(2) by (simp add: Complex_cos_sin)
    have x2: "?X2 ! j =
       (if j = k then cis (theta k)
        else if k > 0 \<and> k < N div 2 \<and> j = N - k then cnj (cis (theta k))
        else X ! j)"
    proof (cases "k > 0 \<and> k < N div 2")
      case True
      then have ne: "N - k \<noteq> k" by arith
      show ?thesis using True ne kN 1(2,3) x1k
        by (auto simp add: nth_list_update)
    next
      case False
      then show ?thesis using kN 1(2,3) x1k by (auto simp add: nth_list_update)
    qed
    consider (a) "j = k" | (b) "j \<noteq> k" "k > 0 \<and> k < N div 2 \<and> j = N - k"
      | (c) "j \<noteq> k" "\<not> (k > 0 \<and> k < N div 2 \<and> j = N - k)" by blast
    then show ?thesis
    proof cases
      case a
      have A: "\<not> Suc k \<le> j" using a by arith
      have B: "\<not> N - N div 2 < j" using a True by arith
      have C: "k \<le> j" "j \<le> N div 2" using a True by arith+
      have x2a: "?X2 ! j = cis (theta j)" using x2 a by simp
      show ?thesis by (simp only: step ih A B C x2a if_True if_False simp_thms)
    next
      case b
      have A: "\<not> j \<le> N div 2" using b 1(3) by arith
      have B: "\<not> j + Suc k \<le> N" using b 1(3) by arith
      have D: "N - N div 2 < j" "j + k \<le> N" using b 1(3) by arith+
      have E: "N - j = k" using b 1(3) by arith
      have x2b: "?X2 ! j = cnj (cis (theta k))" using x2 b by simp
      show ?thesis by (simp only: step ih A B D E x2b if_True if_False simp_thms)
    next
      case c
      have B: "(N - N div 2 < j \<and> j + Suc k \<le> N) = (N - N div 2 < j \<and> j + k \<le> N)"
      proof (cases "j + k = N")
        case True
        then have "j = N - k" by arith
        then have "\<not> (k > 0 \<and> k < N div 2)" using c by blast
        then have "\<not> N - N div 2 < j" using True \<open>k \<le> N div 2\<close> 1(3) by arith
        then show ?thesis by simp
      next
        case False
        then show ?thesis by arith
      qed
      have A: "(Suc k \<le> j \<and> j \<le> N div 2) = (k \<le> j \<and> j \<le> N div 2)"
        using c(1) by arith
      have x2c: "?X2 ! j = X ! j" using x2 c by simp
      show ?thesis by (simp only: step ih A B x2c simp_thms)
    qed
  next
    case False
    have eq: "chirp_loop theta k N X = X"
      using False by (subst chirp_loop.simps) simp
    have n1: "\<not> (k \<le> j \<and> j \<le> N div 2)" using False by arith
    have n2: "\<not> (N - N div 2 < j \<and> j + k \<le> N)" using False by arith
    show ?thesis unfolding eq by (simp only: n1 n2 if_False)
  qed
qed

lemma hermitian_fill:
  fixes theta :: "nat \<Rightarrow> real" and N :: nat and X0 :: "complex list"
  assumes N: "0 < N" and len: "length X0 = N"
  defines "X \<equiv> chirp_loop theta 0 N X0"
  defines "Y \<equiv> X[N div 2 := Complex (Re (X ! (N div 2))) 0]"
  assumes t0: "theta 0 = 0"
  shows "(\<forall>k. 1 \<le> k \<and> k < N div 2 \<longrightarrow> Y ! k = cnj (Y ! (N - k))) \<and>
         Im (Y ! 0) = 0 \<and> Im (Y ! (N div 2)) = 0"
proof (intro conjI allI impI)
  have lenX: "length X = N" unfolding X_def using len by simp
  have half: "N div 2 < N" using N by simp
  { fix k assume k: "1 \<le> k \<and> k < N div 2"
    have kN: "k < N" "k \<noteq> N div 2" "0 \<le> k \<and> k \<le> N div 2" using k by arith+
    have "X ! k = cis (theta k)"
      unfolding X_def using chirp_loop_nth [OF len kN(1), of theta 0] kN(3) by simp
    then have a: "Y ! k = cis (theta k)"
      unfolding Y_def using kN(2) by simp
    have b1: "N - k < N" "N - k \<noteq> N div 2" "\<not> (0 \<le> N - k \<and> N - k \<le> N div 2)"
      "N - N div 2 < N - k \<and> N - k + 0 \<le> N" "N - (N - k) = k"
      using k by arith+
    have "X ! (N - k) = cnj (cis (theta k))"
      unfolding X_def using chirp_loop_nth [OF len b1(1), of theta 0] b1(3,4,5) by simp
    then have b: "Y ! (N - k) = cnj (cis (theta k))"
      unfolding Y_def using b1(2) by simp
    show "Y ! k = cnj (Y ! (N - k))" unfolding a b by simp
  }
  show "Im (Y ! (N div 2)) = 0" unfolding Y_def using half lenX by simp
  show "Im (Y ! 0) = 0"
  proof (cases "N div 2 = 0")
    case True
    then show ?thesis unfolding Y_def using N lenX by simp
  next
    case False
    then have "Y ! 0 = X ! 0" unfolding Y_def by simp
    also have "\<dots> = cis (theta 0)"
      unfolding X_def using chirp_loop_nth [OF len N, of theta 0] by simp
    finally show ?thesis using t0 by simp
  qed
qed

text \<open>
  Claim C7. For \<open>N\<close> a power of two the spectrum \<open>H\<close> of tsp\_gen.c satisfies
  \<open>H k = cnj (H (N - k))\<close> for \<open>1 \<le> k < N / 2\<close>, and \<open>H 0\<close> and \<open>H (N / 2)\<close> are real,
  whatever the \<^verbatim>\<open>malloc\<close>ed buffer held. The inverse filter of tsp\_to\_ir.c, built by
  the same loop from the phase \<open>2 pi J (k / N)\<^sup>2\<close>, has the same symmetry.
\<close>

theorem tsp_spectrum_hermitian:
  assumes "N = 2 ^ m" "length X0 = N"
  shows "(\<forall>k. 1 \<le> k \<and> k < N div 2 \<longrightarrow> tsp_gen_H N X0 ! k = cnj (tsp_gen_H N X0 ! (N - k))) \<and>
         Im (tsp_gen_H N X0 ! 0) = 0 \<and> Im (tsp_gen_H N X0 ! (N div 2)) = 0 \<and>
         (\<forall>k. 1 \<le> k \<and> k < N div 2 \<longrightarrow> INV_FILTER N J X0 ! k = cnj (INV_FILTER N J X0 ! (N - k))) \<and>
         Im (INV_FILTER N J X0 ! 0) = 0 \<and> Im (INV_FILTER N J X0 ! (N div 2)) = 0"
proof -
  have N: "0 < N" using assms(1) by simp
  have a: "up_theta N (N div 2) (N div 4) 0 = 0" by (simp add: up_theta_def)
  have b: "inv_theta N J 0 = 0" by (simp add: inv_theta_def)
  show ?thesis
    using hermitian_fill [of N X0 "up_theta N (N div 2) (N div 4)", OF N assms(2) a]
          hermitian_fill [of N X0 "inv_theta N J", OF N assms(2) b]
    by (simp add: tsp_gen_H_def INV_FILTER_def Let_def)
qed

theorem tsp_spectrum_hermitian_witness:
  "tsp_gen_H 8 [7, 7, 7, 7, 7, 7, 7, 7] ! 1 = cnj (tsp_gen_H 8 [7, 7, 7, 7, 7, 7, 7, 7] ! 7) \<and>
   tsp_gen_H 8 [7, 7, 7, 7, 7, 7, 7, 7] ! 3 = cnj (tsp_gen_H 8 [7, 7, 7, 7, 7, 7, 7, 7] ! 5) \<and>
   Im (tsp_gen_H 8 [7, 7, 7, 7, 7, 7, 7, 7] ! 0) = 0 \<and>
   Im (tsp_gen_H 8 [7, 7, 7, 7, 7, 7, 7, 7] ! 4) = 0 \<and>
   INV_FILTER 8 3 [7, 7, 7, 7, 7, 7, 7, 7] ! 2 = cnj (INV_FILTER 8 3 [7, 7, 7, 7, 7, 7, 7, 7] ! 6)"
proof -
  have p: "(8::nat) = 2 ^ 3" by simp
  have l: "length [7, 7, 7, 7, 7, 7, 7, 7 :: complex] = 8" by simp
  note h = tsp_spectrum_hermitian [OF p l, of 3]
  have k1: "tsp_gen_H 8 [7, 7, 7, 7, 7, 7, 7, 7] ! 1 = cnj (tsp_gen_H 8 [7, 7, 7, 7, 7, 7, 7, 7] ! (8 - 1))"
    using h by simp
  have k3: "tsp_gen_H 8 [7, 7, 7, 7, 7, 7, 7, 7] ! 3 = cnj (tsp_gen_H 8 [7, 7, 7, 7, 7, 7, 7, 7] ! (8 - 3))"
    using h by simp
  have k2: "INV_FILTER 8 3 [7, 7, 7, 7, 7, 7, 7, 7] ! 2 = cnj (INV_FILTER 8 3 [7, 7, 7, 7, 7, 7, 7, 7] ! (8 - 2))"
    using h by simp
  show ?thesis using h k1 k2 k3 by simp
qed

subsection \<open>The FFT size\<close>

text \<open>\<open>N\<close> is the least power of two that is at least \<open>max_len\<close>.\<close>

lemma fft_size_pow2_aux:
  "\<exists>m. fft_size (2 ^ k) max_len = 2 ^ m \<and> max_len \<le> 2 ^ m \<and> k \<le> m \<and>
       (k < m \<longrightarrow> 2 ^ (m - 1) < max_len)"
proof (induction "max_len - 2 ^ k" arbitrary: k rule: less_induct)
  case less
  show ?case
  proof (cases "(2::nat) ^ k < max_len")
    case True
    have step: "fft_size (2 ^ k) max_len = fft_size (2 ^ Suc k) max_len"
      using True by (subst fft_size.simps) (simp add: push_bit_eq_mult mult.commute)
    have "0 < (2::nat) ^ k" by simp
    then have "max_len - 2 * 2 ^ k < max_len - 2 ^ k" using True by arith
    then have "max_len - 2 ^ Suc k < max_len - 2 ^ k" by simp
    from less [OF this]
    obtain m where m: "fft_size (2 ^ Suc k) max_len = 2 ^ m" "max_len \<le> 2 ^ m" "Suc k \<le> m"
      "Suc k < m \<longrightarrow> 2 ^ (m - 1) < max_len" by blast
    have "2 ^ (m - 1) < max_len"
    proof (cases "Suc k < m")
      case True
      then show ?thesis using m(4) by simp
    next
      case False
      then have "m = Suc k" using m(3) by simp
      then show ?thesis using \<open>2 ^ k < max_len\<close> by simp
    qed
    then show ?thesis using step m by auto
  next
    case False
    have "fft_size (2 ^ k) max_len = 2 ^ k"
      using False by (subst fft_size.simps) simp
    then show ?thesis using False by auto
  qed
qed

lemma fft_size_pow2: "\<exists>m. fft_size 1 max_len = 2 ^ m \<and> max_len \<le> 2 ^ m"
  using fft_size_pow2_aux [of 0 max_len] by auto

subsection \<open>Buffer lengths\<close>

lemma length_bit_reversal [simp]: "length (bit_reversal i j n x) = length x"
proof (induction i j n x rule: bit_reversal.induct)
  case (1 i j n x)
  show ?case
  proof (cases "i < n")
    case True
    obtain j1 bitv where c: "bitrev_carry j (drop_bit 1 n) = (j1, bitv)"
      by (cases "bitrev_carry j (drop_bit 1 n)") simp
    let ?j2 = "j1 XOR bitv"
    let ?x = "(if i < ?j2 then x[i := x ! ?j2, ?j2 := x ! i] else x)"
    have "bit_reversal i j n x = bit_reversal (Suc i) ?j2 n ?x"
      using True c by (subst bit_reversal.simps) (simp add: Let_def)
    moreover have "length (bit_reversal (Suc i) ?j2 n ?x) = length ?x"
      using 1 [OF True c [symmetric] refl refl] .
    ultimately show ?thesis by simp
  next
    case False
    then show ?thesis by (subst bit_reversal.simps) simp
  qed
qed

lemma length_butterfly_j [simp]: "length (butterfly_j j len i w wlen x) = length x"
  by (induction j len i w wlen x rule: butterfly_j.induct)
     (subst butterfly_j.simps, simp add: Let_def)

lemma length_butterfly_i [simp]: "length (butterfly_i i len n wlen x) = length x"
  by (induction i len n wlen x rule: butterfly_i.induct)
     (subst butterfly_i.simps, simp)

lemma length_butterfly_stages [simp]: "length (butterfly_stages tau len n x) = length x"
  by (induction tau len n x rule: butterfly_stages.induct)
     (subst butterfly_stages.simps, simp add: Let_def)

lemma length_divide_by_n [simp]: "length (divide_by_n i n x) = length x"
  by (induction i n x rule: divide_by_n.induct)
     (subst divide_by_n.simps, simp)

lemma length_simple_fft [simp]: "length (simple_fft x n) = length x"
  by (simp add: simple_fft_def)

lemma length_simple_ifft [simp]: "length (simple_ifft x n) = length x"
  by (simp add: simple_ifft_def)

lemma length_spectra [simp]:
  "length (TSP tsp_samples N) = N"
  "length (RESPONSE tsp_len response_samples N) = N"
  "length (INV_FILTER N J (map junk [0..<N])) = N"
  "length (IR_FREQ tsp_samples response_samples N junk) = N"
  by (simp_all add: TSP_def TSP_time_def RESPONSE_def RESPONSE_time_def INV_FILTER_def
      IR_FREQ_def Let_def)

subsection \<open>Normalise and quantise\<close>

lemma max_amp_loop_ge_init: "m \<le> max_amp_loop i N x m"
proof (induction i N x m rule: max_amp_loop.induct)
  case (1 i N x m)
  show ?case
  proof (cases "i < N")
    case True
    have "m \<le> (if \<bar>x ! i\<bar> > m then \<bar>x ! i\<bar> else m)" by simp
    also have "\<dots> \<le> max_amp_loop (Suc i) N x (if \<bar>x ! i\<bar> > m then \<bar>x ! i\<bar> else m)"
      using 1 [OF True refl] .
    finally show ?thesis using True by (subst max_amp_loop.simps) (simp add: Let_def)
  next
    case False
    then show ?thesis by (subst max_amp_loop.simps) simp
  qed
qed

lemma max_amp_loop_ge_entry:
  "i \<le> j \<Longrightarrow> j < N \<Longrightarrow> \<bar>x ! j\<bar> \<le> max_amp_loop i N x m"
proof (induction i N x m rule: max_amp_loop.induct)
  case (1 i N x m)
  have lt: "i < N" using 1(2,3) by arith
  let ?m = "(if \<bar>x ! i\<bar> > m then \<bar>x ! i\<bar> else m)"
  have step: "max_amp_loop i N x m = max_amp_loop (Suc i) N x ?m"
    using lt by (subst max_amp_loop.simps) (simp add: Let_def)
  show ?case
  proof (cases "j = i")
    case True
    have "\<bar>x ! i\<bar> \<le> ?m" by simp
    also have "\<dots> \<le> max_amp_loop (Suc i) N x ?m" by (rule max_amp_loop_ge_init)
    finally show ?thesis unfolding step using True by simp
  next
    case False
    then have "Suc i \<le> j" using 1(2) by arith
    then show ?thesis unfolding step using 1(1) [OF lt refl _ 1(3)] by simp
  qed
qed

lemma max_amp_loop_zero:
  "(\<forall>j. i \<le> j \<and> j < N \<longrightarrow> x ! j = 0) \<Longrightarrow> max_amp_loop i N x 0 = 0"
proof (induction i N x "0::real" rule: max_amp_loop.induct)
  case (1 i N x)
  show ?case
  proof (cases "i < N")
    case True
    then have "x ! i = 0" using 1(2) by simp
    then have "max_amp_loop i N x 0 = max_amp_loop (Suc i) N x 0"
      using True by (subst max_amp_loop.simps) (simp add: Let_def)
    moreover have "max_amp_loop (Suc i) N x 0 = 0"
      using 1(1) [OF True refl] \<open>x ! i = 0\<close> 1(2) by simp
    ultimately show ?thesis by simp
  next
    case False
    then show ?thesis by (subst max_amp_loop.simps) simp
  qed
qed

lemma sint_word_of_int_16:
  assumes "- 32768 \<le> t" "t \<le> 32767"
  shows "sint (word_of_int t :: int16) = t"
proof -
  have "signed_take_bit 15 t = t"
    using assms by (intro signed_take_bit_int_eq_self) simp_all
  then show ?thesis by (simp add: sint_sbintrunc')
qed

text \<open>A sample of magnitude at most the peak converts, to at most \<open>29490\<close>.\<close>

lemma to_int16_bounded:
  fixes d :: real
  assumes d: "\<bar>d\<bar> \<le> 294903 / 10"
  shows "\<exists>pcm. to_int16 d = Inr pcm \<and> \<bar>sint pcm\<bar> \<le> 29490"
proof -
  let ?t = "(if d \<ge> 0 then \<lfloor>d\<rfloor> else \<lceil>d\<rceil>)"
  have t: "\<bar>?t\<bar> \<le> 29490"
  proof (cases "d \<ge> 0")
    case True
    have "d < 29491" using d by linarith
    then have "\<lfloor>d\<rfloor> < 29491" by (simp add: floor_less_iff)
    then have hi: "\<lfloor>d\<rfloor> \<le> 29490" by linarith
    have lo: "0 \<le> \<lfloor>d\<rfloor>" using True by simp
    have "?t = \<lfloor>d\<rfloor>" using True by simp
    then show ?thesis using hi lo by linarith
  next
    case False
    have "- 29491 < d" using d by linarith
    then have "- 29491 < \<lceil>d\<rceil>" by (simp add: less_ceiling_iff)
    then have lo: "- 29490 \<le> \<lceil>d\<rceil>" by linarith
    have hi: "\<lceil>d\<rceil> \<le> 0" using False by (simp add: ceiling_le_iff)
    have "?t = \<lceil>d\<rceil>" using False by simp
    then show ?thesis using hi lo by linarith
  qed
  then have range: "- 32768 \<le> ?t" "?t \<le> 32767" by linarith+
  have "to_int16 d = Inr (word_of_int ?t)"
    using range by (simp add: to_int16_def Let_def)
  moreover have "sint (word_of_int ?t :: int16) = ?t"
    using range by (rule sint_word_of_int_16)
  ultimately show ?thesis using t by auto
qed

lemma scaled_sample_bound:
  fixes v m :: real
  assumes "0 < m" "\<bar>v\<bar> \<le> m"
  shows "\<bar>v / m * (9 / 10) * 32767\<bar> \<le> 294903 / 10"
proof -
  have "\<bar>v / m\<bar> = \<bar>v\<bar> / m" by (simp only: abs_divide abs_of_pos [OF assms(1)])
  also have "\<dots> \<le> 1" using assms by (simp add: pos_divide_le_eq)
  finally have "\<bar>v / m\<bar> \<le> 1" .
  then have "\<bar>v / m\<bar> * (294903 / 10) \<le> 1 * (294903 / 10)"
    by (rule mult_right_mono) simp
  moreover have "\<bar>v / m * (9 / 10) * 32767\<bar> = \<bar>v / m\<bar> * (294903 / 10)"
    by (simp add: abs_mult)
  ultimately show ?thesis by simp
qed

lemma quantize_loop_ok:
  assumes "0 < m" "\<forall>j. i \<le> j \<and> j < N \<longrightarrow> \<bar>x ! j\<bar> \<le> m" "N \<le> length out"
  shows "\<exists>ys. quantize_loop i N x m out = Inr ys \<and> length ys = length out \<and>
           (\<forall>j. i \<le> j \<and> j < N \<longrightarrow> \<bar>sint (ys ! j)\<bar> \<le> 29490) \<and>
           (\<forall>j. j < i \<longrightarrow> ys ! j = out ! j)"
  using assms
proof (induction i N x m out rule: quantize_loop.induct)
  case (1 i N x m out)
  show ?case
  proof (cases "i < N")
    case True
    have m0: "m \<noteq> 0" using 1(2) by simp
    have "\<bar>x ! i\<bar> \<le> m" using 1(3) True by simp
    then have "\<bar>x ! i / m * (9 / 10) * 32767\<bar> \<le> 294903 / 10"
      using 1(2) by (intro scaled_sample_bound)
    then obtain pcm where pcm: "to_int16 (x ! i / m * (9 / 10) * 32767) = Inr pcm"
      "\<bar>sint pcm\<bar> \<le> 29490"
      using to_int16_bounded by blast
    have step: "quantize_loop i N x m out = quantize_loop (Suc i) N x m (out[i := pcm])"
      using True m0 pcm(1) by (subst quantize_loop.simps) (simp add: Let_def)
    have pre: "\<forall>j. Suc i \<le> j \<and> j < N \<longrightarrow> \<bar>x ! j\<bar> \<le> m" using 1(3) by simp
    have len: "N \<le> length (out[i := pcm])" using 1(4) by simp
    from 1(1) [OF True m0 refl pcm(1) 1(2) pre len]
    obtain ys where ys: "quantize_loop (Suc i) N x m (out[i := pcm]) = Inr ys"
      "length ys = length (out[i := pcm])"
      "\<forall>j. Suc i \<le> j \<and> j < N \<longrightarrow> \<bar>sint (ys ! j)\<bar> \<le> 29490"
      "\<forall>j. j < Suc i \<longrightarrow> ys ! j = out[i := pcm] ! j"
      by blast
    have ysi: "ys ! i = pcm" using ys(4) True 1(4) by simp
    have bound: "\<bar>sint (ys ! j)\<bar> \<le> 29490" if "i \<le> j \<and> j < N" for j
    proof (cases "j = i")
      case True
      then show ?thesis using ysi pcm(2) by simp
    next
      case False
      then have "Suc i \<le> j \<and> j < N" using that by arith
      then show ?thesis using ys(3) by blast
    qed
    have frame: "ys ! j = out ! j" if "j < i" for j
      using ys(4) that by simp
    show ?thesis unfolding step using ys(1,2) bound frame by simp
  next
    case False
    have eq: "quantize_loop i N x m out = Inr out"
      using False by (subst quantize_loop.simps) simp
    have "\<not> (i \<le> j \<and> j < N)" for j using False by arith
    then show ?thesis unfolding eq by blast
  qed
qed

lemma quantize_loop_zero:
  "i < N \<Longrightarrow> quantize_loop i N x 0 out = Inl NotFinite"
  by (subst quantize_loop.simps) simp

text \<open>
  Claim C10. When the buffer holds a nonzero sample, the export step yields
  \<open>N\<close> 16-bit samples, each of magnitude at most \<open>29490\<close> (the integer part of
  \<open>0.9 * 32767\<close>). When the buffer has at least one sample and all are zero, the
  peak is \<open>0\<close>, the step divides by it and no integer output is defined.
\<close>

theorem normalize_quantize_range:
  assumes "length x = N" "length ir_samples = N"
  shows "((\<exists>i. i < N \<and> x ! i \<noteq> 0) \<longrightarrow>
            (\<exists>pcm. normalize_quantize x N ir_samples = Inr pcm \<and> length pcm = N \<and>
                   (\<forall>i. i < N \<longrightarrow> \<bar>sint (pcm ! i)\<bar> \<le> 29490))) \<and>
         (0 < N \<and> (\<forall>i. i < N \<longrightarrow> x ! i = 0) \<longrightarrow>
            normalize_quantize x N ir_samples = Inl NotFinite)"
proof (intro conjI impI)
  assume "\<exists>i. i < N \<and> x ! i \<noteq> 0"
  then obtain i where i: "i < N" "x ! i \<noteq> 0" by blast
  let ?m = "max_amp_loop 0 N x 0"
  have "0 < \<bar>x ! i\<bar>" using i(2) by simp
  also have "\<dots> \<le> ?m" using i(1) by (intro max_amp_loop_ge_entry) simp_all
  finally have pos: "0 < ?m" .
  have all: "\<forall>j. 0 \<le> j \<and> j < N \<longrightarrow> \<bar>x ! j\<bar> \<le> ?m"
    by (simp add: max_amp_loop_ge_entry)
  have len: "N \<le> length ir_samples" using assms by simp
  from quantize_loop_ok [OF pos all len]
  obtain ys where "quantize_loop 0 N x ?m ir_samples = Inr ys" "length ys = length ir_samples"
      "\<forall>j. 0 \<le> j \<and> j < N \<longrightarrow> \<bar>sint (ys ! j)\<bar> \<le> 29490"
    by blast
  then show "\<exists>pcm. normalize_quantize x N ir_samples = Inr pcm \<and> length pcm = N \<and>
                   (\<forall>i. i < N \<longrightarrow> \<bar>sint (pcm ! i)\<bar> \<le> 29490)"
    using assms by (simp add: normalize_quantize_def)
next
  assume a: "0 < N \<and> (\<forall>i. i < N \<longrightarrow> x ! i = 0)"
  then have "max_amp_loop 0 N x 0 = 0" by (intro max_amp_loop_zero) simp
  then show "normalize_quantize x N ir_samples = Inl NotFinite"
    using a by (simp add: normalize_quantize_def quantize_loop_zero)
qed

text \<open>
  The theorem at the buffer \<open>1/2, - 1, 1/4\<close> (peak \<open>1\<close>), and at two zeros.
\<close>

theorem normalize_quantize_range_witness:
  "normalize_quantize [1 / 2, - 1, 1 / 4] 3 [0, 0, 0] = Inr [14745, - 29490, 7372] \<and>
   normalize_quantize [0, 0] 2 [5, 5] = Inl NotFinite"
proof -
  have l1: "length [1 / 2, - 1, 1 / 4 :: real] = 3" "length [0, 0, 0 :: int16] = 3" by simp_all
  have l2: "length [0, 0 :: real] = 2" "length [5, 5 :: int16] = 2" by simp_all
  have z: "\<forall>i. i < 2 \<longrightarrow> [0, 0 :: real] ! i = 0"
    by (simp add: nth_Cons' )
  have a: "normalize_quantize [0, 0] 2 [5, 5] = Inl NotFinite"
    using normalize_quantize_range [OF l2] z by simp
  have b: "normalize_quantize [1 / 2, - 1, 1 / 4] 3 [0, 0, 0] = Inr [14745, - 29490, 7372]"
    using normalize_quantize_range [OF l1]
    by (simp add: normalize_quantize_def quantize_loop.simps max_amp_loop.simps to_int16_def Let_def)
  show ?thesis using a b by simp
qed

subsection \<open>The checks of main\<close>

text \<open>
  Claim C2, as the code has it. \<^verbatim>\<open>main\<close> ends with an error message and status 1
  when either file cannot be read, and when both are read and their sample rates
  differ. No test looks at the number of samples.
\<close>

theorem tsp_to_ir_main_aborts:
  "(read_wav tsp_file = Inl e1 \<longrightarrow>
      tsp_to_ir_main tsp_file response_file writable junk junk16 = Exit1 ReadFailed) \<and>
   (read_wav tsp_file = Inr (tsp_samples, fs_tsp) \<and> read_wav response_file = Inl e2 \<longrightarrow>
      tsp_to_ir_main tsp_file response_file writable junk junk16 = Exit1 ReadFailed) \<and>
   (read_wav tsp_file = Inr (tsp_samples, fs_tsp) \<and>
    read_wav response_file = Inr (response_samples, fs_response) \<and> fs_tsp \<noteq> fs_response \<longrightarrow>
      tsp_to_ir_main tsp_file response_file writable junk junk16 = Exit1 RateMismatch)"
  by (simp add: tsp_to_ir_main_def)

text \<open>
  The theorem at a 48 kHz excitation with a 44.1 kHz response, and at two paths
  that cannot be opened.
\<close>

theorem tsp_to_ir_main_aborts_witness:
  "read_wav (Some \<lparr>riff = ''RIFF'', wave = ''WAVE'', fmt = ''fmt '', data = ''data'',
                   sample_rate = 48000, data_size = 2, payload = [16384]\<rparr>) = Inr ([16384], 48000) \<and>
   read_wav (Some \<lparr>riff = ''RIFF'', wave = ''WAVE'', fmt = ''fmt '', data = ''data'',
                   sample_rate = 44100, data_size = 2, payload = [16384]\<rparr>) = Inr ([16384], 44100) \<and>
   tsp_to_ir_main
     (Some \<lparr>riff = ''RIFF'', wave = ''WAVE'', fmt = ''fmt '', data = ''data'',
            sample_rate = 48000, data_size = 2, payload = [16384]\<rparr>)
     (Some \<lparr>riff = ''RIFF'', wave = ''WAVE'', fmt = ''fmt '', data = ''data'',
            sample_rate = 44100, data_size = 2, payload = [16384]\<rparr>)
     True of_nat of_nat = Exit1 RateMismatch \<and>
   tsp_to_ir_main None None True of_nat of_nat = Exit1 ReadFailed"
proof -
  let ?a = "Some \<lparr>riff = ''RIFF'', wave = ''WAVE'', fmt = ''fmt '', data = ''data'',
                   sample_rate = 48000, data_size = 2, payload = [16384]\<rparr>"
  let ?b = "Some \<lparr>riff = ''RIFF'', wave = ''WAVE'', fmt = ''fmt '', data = ''data'',
                   sample_rate = 44100, data_size = 2, payload = [16384]\<rparr>"
  have ra: "read_wav ?a = Inr ([16384], 48000)" by (simp add: read_wav_def c_div_def Let_def)
  have rb: "read_wav ?b = Inr ([16384], 44100)" by (simp add: read_wav_def c_div_def Let_def)
  have rn: "read_wav None = Inl CannotOpen" by (simp add: read_wav_def)
  have m: "tsp_to_ir_main ?a ?b True of_nat of_nat = Exit1 RateMismatch"
    using tsp_to_ir_main_aborts [of ?a _ ?b True of_nat of_nat "[16384]" 48000 _ "[16384]" 44100] ra rb
    by simp
  have n: "tsp_to_ir_main None None True of_nat of_nat = Exit1 ReadFailed"
    using tsp_to_ir_main_aborts [of None CannotOpen None True of_nat of_nat] rn by simp
  show ?thesis using ra rb m n by simp
qed

text \<open>
  Claim C2 as the specification words it also has the program abort on an empty
  input. Two well-formed files of zero samples are read without error, the rates
  agree, \<open>N\<close> is \<open>1\<close>, every buffer holds one zero, the peak is \<open>0\<close> and the run ends
  in the division \<open>0 / 0\<close> of the export step: no abort. The same happens when only
  the response is empty.
\<close>

theorem empty_input_counterexample:
  "read_wav (Some \<lparr>riff = ''RIFF'', wave = ''WAVE'', fmt = ''fmt '', data = ''data'',
                   sample_rate = 48000, data_size = 0, payload = []\<rparr>) = Inr ([], 48000) \<and>
   tsp_to_ir_main
     (Some \<lparr>riff = ''RIFF'', wave = ''WAVE'', fmt = ''fmt '', data = ''data'',
            sample_rate = 48000, data_size = 0, payload = []\<rparr>)
     (Some \<lparr>riff = ''RIFF'', wave = ''WAVE'', fmt = ''fmt '', data = ''data'',
            sample_rate = 48000, data_size = 0, payload = []\<rparr>)
     True of_nat of_nat = Undefined NotFinite \<and>
   tsp_to_ir_main
     (Some \<lparr>riff = ''RIFF'', wave = ''WAVE'', fmt = ''fmt '', data = ''data'',
            sample_rate = 48000, data_size = 2, payload = [16384]\<rparr>)
     (Some \<lparr>riff = ''RIFF'', wave = ''WAVE'', fmt = ''fmt '', data = ''data'',
            sample_rate = 48000, data_size = 0, payload = []\<rparr>)
     True of_nat of_nat = Undefined NotFinite"
  by (simp add: tsp_to_ir_main_def read_wav_def c_div_def Let_def fft_size.simps
      IR_FREQ_def TSP_def RESPONSE_def TSP_time_def RESPONSE_time_def INV_FILTER_def inv_theta_def
      response_copy_len_def response_start_idx_def
      simple_fft_def simple_ifft_def bit_reversal.simps butterfly_stages.simps divide_by_n.simps
      copy_samples.simps chirp_loop.simps IR_FREQ_loop.simps
      normalize_quantize_def max_amp_loop.simps quantize_loop.simps)

subsection \<open>The two transforms over the complex numbers\<close>

text \<open>
  The lemmas of this subsection are algebra: they hold for the loops run over the
  complex numbers, where no operation rounds, and for a length \<open>n = 2 ^ m\<close> that the
  C \<^verbatim>\<open>int\<close> \<open>len\<close> can step through (\<open>m < 30\<close>). There \<^verbatim>\<open>simple_fft\<close> is the discrete Fourier
  transform of kernel \<open>exp (2 * pi * \<i> * j * k / n)\<close> and \<^verbatim>\<open>simple_ifft\<close> is its inverse. They
  say nothing about the rounding error of the compiled transforms: a bound on
  that error needs a model of binary64 arithmetic and of \<^verbatim>\<open>cos\<close> and \<^verbatim>\<open>sin\<close>, which this
  theory does not have.
\<close>

text \<open>
  The inner loop of a stage of half length \<open>h\<close> on the block that starts at \<open>i\<close>: the lower
  half receives \<open>u + v\<close>, the upper half \<open>u - v\<close>, with the running factor \<open>w\<close>; nothing else
  is written.
\<close>

lemma butterfly_j_nth:
  assumes "i + 2 * h \<le> length x" "p < length x"
  shows "butterfly_j j (2 * h) i w wlen x ! p =
     (if i + j \<le> p \<and> p < i + h then x ! p + x ! (p + h) * (w * wlen ^ (p - i - j))
      else if i + h + j \<le> p \<and> p < i + 2 * h
           then x ! (p - h) - x ! p * (w * wlen ^ (p - i - h - j))
      else x ! p)"
  using assms
proof (induction "h - j" arbitrary: j w x)
  case 0
  then have "\<not> j < (2 * h) div 2" by simp
  then have eq: "butterfly_j j (2 * h) i w wlen x = x"
    by (subst butterfly_j.simps) simp
  have n1: "\<not> (i + j \<le> p \<and> p < i + h)" and n2: "\<not> (i + h + j \<le> p \<and> p < i + 2 * h)"
    using 0 by arith+
  show ?case unfolding eq by (simp only: n1 n2 if_False simp_thms)
next
  case (Suc d)
  then have jh: "j < h" by arith
  let ?u = "x ! (i + j)" and ?v = "x ! (i + j + h) * w"
  let ?x2 = "x[i + j := ?u + ?v, i + j + h := ?u - ?v]"
  have step: "butterfly_j j (2 * h) i w wlen x = butterfly_j (Suc j) (2 * h) i (w * wlen) wlen ?x2"
    using jh by (subst butterfly_j.simps) (simp add: Let_def)
  have len2: "i + 2 * h \<le> length ?x2" "p < length ?x2" using Suc.prems by simp_all
  have d: "d = h - Suc j" using Suc.hyps(2) by arith
  note ih = Suc.hyps(1) [OF d len2, of "w * wlen"]
  have inb: "i + j < length x" "i + j + h < length x" using jh Suc.prems by arith+
  consider (a) "p = i + j" | (b) "p = i + j + h"
    | (c) "i + Suc j \<le> p" "p < i + h" | (d) "i + h + Suc j \<le> p" "p < i + 2 * h"
    | (e) "p < i + j \<or> (i + h \<le> p \<and> p < i + h + j) \<or> i + 2 * h \<le> p"
    by arith
  then show ?case
  proof cases
    case a
    have v: "?x2 ! p = x ! p + x ! (p + h) * w" using a inb jh by (simp add: nth_list_update)
    have l: "butterfly_j (Suc j) (2 * h) i (w * wlen) wlen ?x2 ! p = ?x2 ! p"
      using ih a jh by simp
    show ?thesis unfolding step l v using a jh by simp
  next
    case b
    have v: "?x2 ! p = x ! (p - h) - x ! p * w" using b inb by (simp add: nth_list_update)
    have l: "butterfly_j (Suc j) (2 * h) i (w * wlen) wlen ?x2 ! p = ?x2 ! p"
      using ih b jh by simp
    show ?thesis unfolding step l v using b jh by simp
  next
    case c
    have ne: "p \<noteq> i + j" "p \<noteq> i + j + h" "p + h \<noteq> i + j" "p + h \<noteq> i + j + h"
      using c by arith+
    have v: "?x2 ! p = x ! p" "?x2 ! (p + h) = x ! (p + h)"
      using ne by (simp_all add: nth_list_update)
    have l: "butterfly_j (Suc j) (2 * h) i (w * wlen) wlen ?x2 ! p =
             x ! p + x ! (p + h) * (w * wlen * wlen ^ (p - i - Suc j))"
      using ih c by (simp only: v) simp
    have r: "i + j \<le> p \<and> p < i + h" using c by arith
    have "p - (i + j) = Suc (p - Suc (i + j))" using c by arith
    then have e2: "wlen * wlen ^ (p - Suc (i + j)) = wlen ^ (p - (i + j))" by simp
    show ?thesis unfolding step l using r by (simp add: e2 mult.assoc)
  next
    case d
    have ne: "p \<noteq> i + j" "p \<noteq> i + j + h" "p - h \<noteq> i + j" "p - h \<noteq> i + j + h"
      using d by arith+
    have v: "?x2 ! p = x ! p" "?x2 ! (p - h) = x ! (p - h)"
      using ne by (simp_all add: nth_list_update)
    have c1: "\<not> (i + Suc j \<le> p \<and> p < i + h)" using d by arith
    have l: "butterfly_j (Suc j) (2 * h) i (w * wlen) wlen ?x2 ! p =
             x ! (p - h) - x ! p * (w * wlen * wlen ^ (p - i - h - Suc j))"
      using ih d c1 by (simp only: v) simp
    have r: "\<not> (i + j \<le> p \<and> p < i + h)" "i + h + j \<le> p \<and> p < i + 2 * h" using d by arith+
    have "p - (i + h + j) = Suc (p - Suc (i + h + j))" using d by arith
    then have e2: "wlen * wlen ^ (p - Suc (i + h + j)) = wlen ^ (p - (i + h + j))" by simp
    show ?thesis unfolding step l using r by (simp add: e2 mult.assoc)
  next
    case e
    have c1: "\<not> (i + Suc j \<le> p \<and> p < i + h)" "\<not> (i + h + Suc j \<le> p \<and> p < i + 2 * h)"
      using e by arith+
    have c2: "\<not> (i + j \<le> p \<and> p < i + h)" "\<not> (i + h + j \<le> p \<and> p < i + 2 * h)"
      using e by arith+
    have ne: "p \<noteq> i + j" "p \<noteq> i + j + h" using e jh by arith+
    have v: "?x2 ! p = x ! p" using ne by (simp add: nth_list_update)
    have l: "butterfly_j (Suc j) (2 * h) i (w * wlen) wlen ?x2 ! p = x ! p"
      using ih c1 by (simp only: v) simp
    show ?thesis unfolding step l by (simp only: c2 if_False)
  qed
qed

text \<open>Arithmetic of the blocks \<open>i = 0, len, 2 * len, \<dots>\<close> of the loop over \<open>i\<close>.\<close>

lemma blk_next:
  fixes H i n :: nat
  assumes "H dvd i" "H dvd n" "i < n"
  shows "i + H \<le> n"
proof -
  obtain a where a: "i = H * a" using assms(1) by (auto simp add: dvd_def)
  obtain b where b: "n = H * b" using assms(2) by (auto simp add: dvd_def)
  have "a < b" using assms(3) a b by simp
  then have "Suc a \<le> b" by simp
  then have "H * Suc a \<le> H * b" by (rule mult_le_mono2)
  then show ?thesis using a b by simp
qed

lemma blk_mod:
  fixes H i p :: nat
  assumes "H dvd i" "i \<le> p" "p < i + H"
  shows "p mod H = p - i"
proof -
  have "p = (p - i) + i" using assms(2) by simp
  then have "p mod H = ((p - i) + i) mod H" by simp
  also have "\<dots> = (p - i) mod H" using assms(1) by (simp add: mod_add_right_eq [symmetric])
  also have "\<dots> = p - i" using assms(2,3) by simp
  finally show ?thesis .
qed

lemma blk_floor:
  fixes H i p :: nat
  assumes "H dvd i" "i \<le> p"
  shows "i \<le> p - p mod H"
proof (cases "H = 0")
  case True
  then show ?thesis using assms by simp
next
  case False
  obtain a where a: "i = H * a" using assms(1) by (auto simp add: dvd_def)
  have "(H * a) div H \<le> p div H" using assms(2) a by (intro div_le_mono) simp
  then have "a \<le> p div H" using False by simp
  then have "H * a \<le> H * (p div H)" by (rule mult_le_mono2)
  then show ?thesis using a by (simp add: minus_mod_eq_mult_div)
qed

lemma blk_ceil:
  fixes H n p :: nat
  assumes "H dvd n" "p < n"
  shows "p - p mod H + H \<le> n"
proof -
  have "H dvd p - p mod H" by (simp add: minus_mod_eq_mult_div)
  moreover have "p - p mod H < n" using assms(2) by arith
  ultimately show ?thesis using assms(1) by (intro blk_next)
qed

lemma butterfly_j_block:
  assumes "i + 2 * h \<le> length x" "p < length x"
  shows "butterfly_j 0 (2 * h) i 1 wlen x ! p =
     (if i \<le> p \<and> p < i + h then x ! p + x ! (p + h) * wlen ^ (p - i)
      else if i + h \<le> p \<and> p < i + 2 * h then x ! (p - h) - x ! p * wlen ^ (p - i - h)
      else x ! p)"
  using butterfly_j_nth [OF assms, of 0 1 wlen] by simp

lemma butterfly_i_nth:
  assumes h: "0 < h" and dn: "2 * h dvd n"
    and di: "2 * h dvd i" and len: "n \<le> length x" and p: "p < n"
  shows "butterfly_i i (2 * h) n wlen x ! p =
     (if i \<le> p then
        (if p mod (2 * h) < h then x ! p + x ! (p + h) * wlen ^ (p mod (2 * h))
         else x ! (p - h) - x ! p * wlen ^ (p mod (2 * h) - h))
      else x ! p)"
  using di len
proof (induction "n - i" arbitrary: i x rule: less_induct)
  case less
  show ?case
  proof (cases "i < n")
    case False
    have eq: "butterfly_i i (2 * h) n wlen x = x"
      using False by (subst butterfly_i.simps) simp
    have "\<not> i \<le> p" using False p by arith
    then show ?thesis unfolding eq by simp
  next
    case True
    let ?x1 = "butterfly_j 0 (2 * h) i 1 wlen x"
    have step: "butterfly_i i (2 * h) n wlen x = butterfly_i (i + 2 * h) (2 * h) n wlen ?x1"
      using True h by (subst butterfly_i.simps) simp
    have nx: "i + 2 * h \<le> n" using less.prems(1) dn True by (rule blk_next)
    have m: "n - (i + 2 * h) < n - i" using True h by arith
    have d2: "2 * h dvd i + 2 * h" using less.prems(1) by simp
    have l2: "n \<le> length ?x1" using less.prems(2) by simp
    note ih = less.hyps [OF m d2 l2]
    have bl: "i + 2 * h \<le> length x" using nx less.prems(2) by arith
    have pl: "p < length x" using p less.prems(2) by arith
    consider (A) "p < i" | (B) "i \<le> p" "p < i + h" | (B') "i + h \<le> p" "p < i + 2 * h"
      | (C) "i + 2 * h \<le> p" by arith
    then show ?thesis
    proof cases
      case A
      have c: "\<not> i + 2 * h \<le> p" "\<not> i \<le> p" using A by arith+
      have v: "?x1 ! p = x ! p" using butterfly_j_block [OF bl pl, of wlen] c by simp
      show ?thesis unfolding step ih v by (simp only: c if_False)
    next
      case B
      have c: "\<not> i + 2 * h \<le> p" using B by arith
      have md: "p mod (2 * h) = p - i"
        using less.prems(1) B by (intro blk_mod) arith+
      have lt: "p - i < h" using B by arith
      have v: "?x1 ! p = x ! p + x ! (p + h) * wlen ^ (p - i)"
        using butterfly_j_block [OF bl pl, of wlen] B by simp
      show ?thesis unfolding step ih v md using B lt c by simp
    next
      case B'
      have c: "\<not> i + 2 * h \<le> p" "i \<le> p" "\<not> (i \<le> p \<and> p < i + h)" using B' by arith+
      have md: "p mod (2 * h) = p - i"
        using less.prems(1) B' by (intro blk_mod) arith+
      have lt: "\<not> p - i < h" using B' by arith
      have v: "?x1 ! p = x ! (p - h) - x ! p * wlen ^ (p - i - h)"
        using butterfly_j_block [OF bl pl, of wlen] B' c(3) by simp
      show ?thesis unfolding step ih v md using lt c by simp
    next
      case C
      have c: "i + 2 * h \<le> p" "i \<le> p" "\<not> (i \<le> p \<and> p < i + h)"
        "\<not> (i + h \<le> p \<and> p < i + 2 * h)" using C by arith+
      have v: "?x1 ! p = x ! p" using butterfly_j_block [OF bl pl, of wlen] c by simp
      show ?thesis
      proof (cases "p mod (2 * h) < h")
        case True
        have "p - p mod (2 * h) + 2 * h \<le> n" using dn p by (rule blk_ceil)
        then have ph: "p + h < length x" "i + 2 * h \<le> p + h" using True less.prems(2) C by arith+
        have v2: "?x1 ! (p + h) = x ! (p + h)"
          using butterfly_j_block [OF bl ph(1), of wlen] ph(2) by simp
        show ?thesis unfolding step ih v v2 using True c by simp
      next
        case False
        have "i + 2 * h \<le> p - p mod (2 * h)" using d2 C by (rule blk_floor)
        then have ph: "p - h < length x" "i + 2 * h \<le> p - h" using False pl by arith+
        have v2: "?x1 ! (p - h) = x ! (p - h)"
          using butterfly_j_block [OF bl ph(1), of wlen] ph(2) by simp
        show ?thesis unfolding step ih v v2 using False c by simp
      qed
    qed
  qed
qed

text \<open>The factors \<open>twiddle\<close> and the order \<open>bitrev\<close>.\<close>

lemma twiddle_add: "twiddle tau s (a + b) = twiddle tau s a * twiddle tau s b"
  by (simp add: twiddle_def cis_mult add_divide_distrib distrib_left)

lemma twiddle_double: "twiddle tau (Suc s) (2 * a) = twiddle tau s a"
  by (simp add: twiddle_def)

lemma twiddle_pow: "twiddle tau s 1 ^ k = twiddle tau s k"
  by (simp add: twiddle_def DeMoivre mult.commute)

lemma cis_nat_period:
  assumes "cis (tau / 2) = - 1"
  shows "cis (tau * real j) = 1"
proof -
  have "cis (tau * real j) = cis (tau / 2) ^ (2 * j)"
    by (simp add: DeMoivre mult.commute)
  also have "\<dots> = 1" unfolding assms by (simp add: power_mult)
  finally show ?thesis .
qed

lemma twiddle_period:
  assumes "cis (tau / 2) = - 1"
  shows "twiddle tau s (2 ^ s * j) = 1"
  using cis_nat_period [OF assms, of j] by (simp add: twiddle_def)

lemma twiddle_half:
  assumes "cis (tau / 2) = - 1"
  shows "twiddle tau (Suc s) (2 ^ s) = - 1"
  using assms by (simp add: twiddle_def)

lemma sum_even_odd:
  fixes f :: "nat \<Rightarrow> complex"
  shows "(\<Sum>j<2 * n. f j) = (\<Sum>j<n. f (2 * j)) + (\<Sum>j<n. f (2 * j + 1))"
  by (induction n) (simp_all add: algebra_simps)

lemma bitrev_less: "bitrev s j < 2 ^ s"
proof (induction s arbitrary: j)
  case 0
  show ?case by simp
next
  case (Suc s)
  have "j mod 2 = 0 \<or> j mod 2 = 1" by arith
  then have "j mod 2 * 2 ^ s \<le> (2::nat) ^ s" by auto
  moreover have "bitrev s (j div 2) < 2 ^ s" by (rule Suc)
  ultimately have "bitrev s (j div 2) + j mod 2 * 2 ^ s < 2 ^ s + 2 ^ s" by arith
  then show ?case by simp
qed

text \<open>
  One pass of the loop over \<open>len\<close> turns the transforms of the blocks of \<open>2 ^ s\<close> entries
  into the transforms of the blocks of \<open>2 ^ Suc s\<close> entries.
\<close>

lemma blk_split:
  fixes h base r :: nat
  assumes "h dvd base" "r < h"
  shows "(base + r) mod h = r" "base + r - (base + r) mod h = base"
proof -
  obtain c where c: "base = h * c" using assms(1) by (auto simp add: dvd_def)
  show m: "(base + r) mod h = r" unfolding c using assms(2) by simp
  show "base + r - (base + r) mod h = base" unfolding m by simp
qed

lemma dft_block_at:
  assumes "2 ^ s dvd base" "r < 2 ^ s"
  shows "dft_block tau s z (base + r) = (\<Sum>j<2 ^ s. z ! (base + bitrev s j) * twiddle tau s (j * r))"
  unfolding dft_block_def blk_split(1) [OF assms] by simp

lemma dft_block_Suc:
  "dft_block tau (Suc s) z p =
     (\<Sum>j<2 ^ s. z ! (p - p mod 2 ^ Suc s + bitrev s j) * twiddle tau (Suc s) (2 * j * (p mod 2 ^ Suc s))) +
     (\<Sum>j<2 ^ s. z ! (p - p mod 2 ^ Suc s + 2 ^ s + bitrev s j) *
          twiddle tau (Suc s) ((2 * j + 1) * (p mod 2 ^ Suc s)))"
proof -
  have e: "bitrev (Suc s) (2 * j) = bitrev s j" for j by simp
  have "(2 * j + 1) div 2 = j" "(2 * j + 1) mod 2 = 1" for j :: nat by arith+
  then have "bitrev (Suc s) (2 * j + 1) = 2 ^ s + bitrev s j" for j
    unfolding bitrev.simps by simp
  then have o: "p - p mod 2 ^ Suc s + bitrev (Suc s) (2 * j + 1)
      = p - p mod 2 ^ Suc s + 2 ^ s + bitrev s j" for j by (simp only: add.assoc)
  have "dft_block tau (Suc s) z p =
      (\<Sum>j<2 * 2 ^ s. z ! (p - p mod 2 ^ Suc s + bitrev (Suc s) j) *
          twiddle tau (Suc s) (j * (p mod 2 ^ Suc s)))"
    unfolding dft_block_def by simp
  also have "\<dots> =
     (\<Sum>j<2 ^ s. z ! (p - p mod 2 ^ Suc s + bitrev (Suc s) (2 * j)) *
          twiddle tau (Suc s) (2 * j * (p mod 2 ^ Suc s))) +
     (\<Sum>j<2 ^ s. z ! (p - p mod 2 ^ Suc s + bitrev (Suc s) (2 * j + 1)) *
          twiddle tau (Suc s) ((2 * j + 1) * (p mod 2 ^ Suc s)))"
    by (rule sum_even_odd)
  finally show ?thesis unfolding e o .
qed

lemma stage_step:
  assumes tau: "cis (tau / 2) = - 1"
    and dn: "2 * 2 ^ s dvd n" and len: "n \<le> length y"
    and inv: "\<And>q. q < n \<Longrightarrow> y ! q = dft_block tau s z q"
    and p: "p < n"
  shows "butterfly_i 0 (2 * 2 ^ s) n (twiddle tau (Suc s) 1) y ! p = dft_block tau (Suc s) z p"
proof -
  define h :: nat where "h = 2 ^ s"
  define k' where "k' = p mod (2 * h)"
  define base where "base = p - k'"
  define w where "w = twiddle tau (Suc s) 1"
  have h0: "0 < h" by (simp add: h_def)
  have kH: "k' < 2 * h" unfolding k'_def using h0 by simp
  have pb: "p = base + k'" unfolding base_def k'_def by simp
  have "2 * h dvd base" unfolding base_def k'_def by (simp add: minus_mod_eq_mult_div)
  then have hb: "h dvd base" by (rule dvd_mult_right)
  have hbh: "h dvd base + h" using hb by simp
  have dn': "2 * h dvd n" using dn by (simp add: h_def)
  have bi: "butterfly_i 0 (2 * h) n w y ! p =
     (if k' < h then y ! p + y ! (p + h) * w ^ k' else y ! (p - h) - y ! p * w ^ (k' - h))"
    unfolding k'_def using butterfly_i_nth [OF h0 dn' _ len p, of 0 w] by simp
  have S: "dft_block tau (Suc s) z p =
     (\<Sum>j<h. z ! (base + bitrev s j) * twiddle tau (Suc s) (2 * j * k')) +
     (\<Sum>j<h. z ! (base + h + bitrev s j) * twiddle tau (Suc s) ((2 * j + 1) * k'))"
    unfolding dft_block_Suc base_def k'_def h_def by simp
  have ceil: "base + 2 * h \<le> n" unfolding base_def k'_def using dn' p by (rule blk_ceil)
  show ?thesis
  proof (cases "k' < h")
    case True
    have q1: "p < n" by (rule p)
    have q2: "p + h < n" using ceil pb True by arith
    have e2: "p + h = (base + h) + k'" using pb by simp
    have y1: "y ! p = (\<Sum>j<h. z ! (base + bitrev s j) * twiddle tau s (j * k'))"
      unfolding inv [OF q1] unfolding pb h_def
      using hb True unfolding h_def by (rule dft_block_at)
    have y2: "y ! (p + h) = (\<Sum>j<h. z ! (base + h + bitrev s j) * twiddle tau s (j * k'))"
      unfolding inv [OF q2] unfolding e2 unfolding h_def
      using hbh True unfolding h_def by (rule dft_block_at)
    have t1: "twiddle tau (Suc s) (2 * j * k') = twiddle tau s (j * k')" for j
      using twiddle_double [of tau s "j * k'"] by (simp add: mult.assoc)
    have t2: "twiddle tau (Suc s) ((2 * j + 1) * k') = twiddle tau s (j * k') * w ^ k'" for j
    proof -
      have "(2 * j + 1) * k' = 2 * (j * k') + k'" by (simp add: algebra_simps)
      then show ?thesis unfolding w_def twiddle_pow by (simp only: twiddle_add twiddle_double)
    qed
    have "dft_block tau (Suc s) z p = y ! p + y ! (p + h) * w ^ k'"
      unfolding S y1 y2 t1 t2 by (simp add: sum_distrib_right mult.assoc)
    then show ?thesis using bi True by (simp add: h_def w_def)
  next
    case False
    define k where "k = k' - h"
    have kk: "k' = k + h" "k < h" using False kH by (simp_all add: k_def)
    have q1: "p < n" by (rule p)
    have q2: "p - h < n" using p by arith
    have e1: "p - h = base + k" using pb kk by simp
    have e2: "p = (base + h) + k" using pb kk by simp
    have y1: "y ! (p - h) = (\<Sum>j<h. z ! (base + bitrev s j) * twiddle tau s (j * k))"
      unfolding inv [OF q2] unfolding e1 unfolding h_def
      using hb kk(2) unfolding h_def by (rule dft_block_at)
    have y2: "y ! p = (\<Sum>j<h. z ! (base + h + bitrev s j) * twiddle tau s (j * k))"
      unfolding inv [OF q1] unfolding e2 unfolding h_def
      using hbh kk(2) unfolding h_def by (rule dft_block_at)
    have t1: "twiddle tau (Suc s) (2 * j * k') = twiddle tau s (j * k)" for j
    proof -
      have "2 * j * k' = 2 * (j * k) + 2 ^ Suc s * j" unfolding kk by (simp add: algebra_simps h_def)
      then show ?thesis by (simp only: twiddle_add twiddle_double twiddle_period [OF tau] mult_1_right)
    qed
    have t2: "twiddle tau (Suc s) ((2 * j + 1) * k') = - (twiddle tau s (j * k) * w ^ k)" for j
    proof -
      have "(2 * j + 1) * k' = 2 * (j * k) + 2 ^ Suc s * j + k + 2 ^ s"
        unfolding kk by (simp add: algebra_simps h_def)
      then show ?thesis unfolding w_def twiddle_pow
        by (simp only: twiddle_add twiddle_double twiddle_period [OF tau] twiddle_half [OF tau]) simp
    qed
    have "dft_block tau (Suc s) z p = y ! (p - h) - y ! p * w ^ k"
      unfolding S y1 y2 t1 t2 by (simp add: sum_distrib_right mult.assoc sum_negf)
    then show ?thesis using bi False by (simp add: h_def w_def k_def)
  qed
qed

text \<open>All passes: from blocks of one entry to the single block of \<open>n = 2 ^ m\<close> entries.\<close>

lemma dft_block_0: "dft_block tau 0 z q = z ! q"
  by (simp add: dft_block_def twiddle_def)

lemma dft_block_top:
  assumes "p < 2 ^ m"
  shows "dft_block tau m z p = (\<Sum>j<2 ^ m. z ! bitrev m j * twiddle tau m (j * p))"
  using dft_block_at [of m 0 p tau z] assms by simp

lemma butterfly_stages_dft:
  assumes tau: "cis (tau / 2) = - 1" and n: "n = 2 ^ m"
    and s: "s \<le> m" and len: "n \<le> length y"
    and inv: "\<And>q. q < n \<Longrightarrow> y ! q = dft_block tau s z q"
    and p: "p < n"
  shows "butterfly_stages tau (2 ^ Suc s) n y ! p = dft_block tau m z p"
  using s len inv
proof (induction "m - s" arbitrary: s y)
  case 0
  then have sm: "s = m" by simp
  have "\<not> (2::nat) ^ Suc s \<le> n" unfolding n sm by simp
  then have eq: "butterfly_stages tau (2 ^ Suc s) n y = y"
    by (subst butterfly_stages.simps) simp
  show ?case unfolding eq using 0(4) [OF p] sm by simp
next
  case (Suc d)
  then have lt: "Suc s \<le> m" by arith
  let ?y1 = "butterfly_i 0 (2 * 2 ^ s) n (twiddle tau (Suc s) 1) y"
  have le: "(2::nat) ^ Suc s \<le> n" unfolding n using lt by (rule power_increasing) simp
  have w: "Complex (cos (tau / (2 * 2 ^ s))) (sin (tau / (2 * 2 ^ s))) = twiddle tau (Suc s) (Suc 0)"
    by (simp add: twiddle_def cis.code)
  have step: "butterfly_stages tau (2 ^ Suc s) n y = butterfly_stages tau (2 ^ Suc (Suc s)) n ?y1"
    using le by (subst butterfly_stages.simps) (simp add: Let_def push_bit_eq_mult w)
  have dn: "2 * 2 ^ s dvd n" unfolding n using le_imp_power_dvd [OF lt, of "2::nat"] by simp
  have d: "d = m - Suc s" using Suc.hyps(2) by arith
  have l1: "n \<le> length ?y1" using Suc.prems(2) by simp
  have i1: "?y1 ! q = dft_block tau (Suc s) z q" if "q < n" for q
    using tau dn Suc.prems(2) Suc.prems(3) that by (rule stage_step)
  show ?case unfolding step by (rule Suc.hyps(1) [OF d lt l1 i1])
qed

lemma butterfly_stages_sum:
  assumes tau: "cis (tau / 2) = - 1" and n: "n = 2 ^ m" and len: "n \<le> length z" and p: "p < n"
  shows "butterfly_stages tau 2 n z ! p = (\<Sum>j<n. z ! bitrev m j * twiddle tau m (j * p))"
proof -
  have "butterfly_stages tau (2 ^ Suc 0) n z ! p = dft_block tau m z p"
    using tau n _ len _ p by (rule butterfly_stages_dft) (simp_all add: dft_block_0)
  then show ?thesis using dft_block_top [of p m tau z] p unfolding n by simp
qed

text \<open>
  The reordering loop. The inner \<^verbatim>\<open>for (; j & bit; bit >>= 1) j ^= bit; j ^= bit;\<close> adds
  one to \<open>j\<close> read from the top bit downwards, so \<open>j\<close> runs through \<open>bitrev m i\<close>.
\<close>

lemma and_pow_low:
  fixes r :: nat
  assumes "r < 2 ^ s"
  shows "r AND 2 ^ s = 0"
  using assms by (simp add: and_exp_eq_0_iff_not_bit bit_iff_odd)

lemma xor_pow_low:
  fixes r :: nat
  assumes "r < 2 ^ s"
  shows "r XOR 2 ^ s = r + 2 ^ s"
  using disjunctive_add_eq_xor [OF and_pow_low [OF assms]] by simp

lemma and_pow_high:
  fixes r :: nat
  assumes "r < 2 ^ s"
  shows "(r + 2 ^ s) AND 2 ^ s \<noteq> 0"
  using assms by (simp add: and_exp_eq_0_iff_not_bit bit_iff_odd)

lemma xor_pow_high:
  fixes r :: nat
  assumes "r < 2 ^ s"
  shows "(r + 2 ^ s) XOR 2 ^ s = r"
proof -
  have "(r + 2 ^ s) XOR 2 ^ s = (r XOR 2 ^ s) XOR 2 ^ s"
    by (simp only: xor_pow_low [OF assms])
  also have "\<dots> = r" by (simp add: xor.assoc)
  finally show ?thesis .
qed

lemma bitrev_carry_next:
  assumes "Suc i < 2 ^ Suc s"
  shows "(case bitrev_carry (bitrev (Suc s) i) (2 ^ s) of (j1, bitv) \<Rightarrow> j1 XOR bitv)
         = bitrev (Suc s) (Suc i)"
  using assms
proof (induction s arbitrary: i)
  case 0
  then have i: "i = 0" by simp
  have "bitrev_carry 0 (Suc 0) = (0, Suc 0)" by (subst bitrev_carry.simps) simp
  then show ?case unfolding i by simp
next
  case (Suc s)
  let ?r = "bitrev (Suc s) (i div 2)"
  have rl: "?r < 2 ^ Suc s" by (rule bitrev_less)
  show ?case
  proof (cases "even i")
    case True
    then obtain k where k: "i = 2 * k" by (auto elim: evenE)
    have b: "bitrev (Suc (Suc s)) i = ?r" unfolding k by simp
    have c: "bitrev_carry ?r (2 ^ Suc s) = (?r, 2 ^ Suc s)"
      using and_pow_low [OF rl] by (subst bitrev_carry.simps) simp
    have n: "bitrev (Suc (Suc s)) (Suc i) = ?r + 2 ^ Suc s" unfolding k by simp
    show ?thesis unfolding b c n using xor_pow_low [OF rl] by simp
  next
    case False
    then obtain k where k: "i = Suc (2 * k)" by (auto elim: oddE)
    have kk: "i div 2 = k" unfolding k by simp
    have b: "bitrev (Suc (Suc s)) i = ?r + 2 ^ Suc s" unfolding k by simp
    have sk: "Suc k < 2 ^ Suc s" using Suc.prems unfolding k by simp
    have c: "bitrev_carry (?r + 2 ^ Suc s) (2 ^ Suc s) = bitrev_carry ?r (2 ^ s)"
      using and_pow_high [OF rl] xor_pow_high [OF rl]
      by (subst bitrev_carry.simps) (simp add: drop_bit_eq_div)
    have n: "bitrev (Suc (Suc s)) (Suc i) = bitrev (Suc s) (Suc k)" unfolding k by simp
    show ?thesis unfolding b c n unfolding kk using Suc.IH [OF sk] .
  qed
qed

lemma bitrev_top:
  assumes "r < 2 ^ s" "b < 2"
  shows "bitrev (Suc s) (r + b * 2 ^ s) = 2 * bitrev s r + b"
  using assms
proof (induction s arbitrary: r)
  case 0
  then show ?case by simp
next
  case (Suc s)
  have e: "r + b * 2 ^ Suc s = r + 2 * (b * 2 ^ s)" by simp
  have d: "(r + b * 2 ^ Suc s) div 2 = r div 2 + b * 2 ^ s" unfolding e by simp
  have m: "(r + b * 2 ^ Suc s) mod 2 = r mod 2" unfolding e by simp
  have r2: "r div 2 < 2 ^ s" using Suc.prems(1) by simp
  have "bitrev (Suc (Suc s)) (r + b * 2 ^ Suc s)
      = bitrev (Suc s) (r div 2 + b * 2 ^ s) + r mod 2 * 2 ^ Suc s"
    by (subst bitrev.simps) (simp only: d m)
  also have "\<dots> = 2 * bitrev s (r div 2) + b + r mod 2 * 2 ^ Suc s"
    by (simp only: Suc.IH [OF r2 Suc.prems(2)])
  also have "\<dots> = 2 * bitrev (Suc s) r + b" by simp
  finally show ?case .
qed

lemma bitrev_involution:
  assumes "j < 2 ^ s"
  shows "bitrev s (bitrev s j) = j"
  using assms
proof (induction s arbitrary: j)
  case 0
  then show ?case by simp
next
  case (Suc s)
  have j2: "j div 2 < 2 ^ s" using Suc.prems by simp
  have "bitrev (Suc s) (bitrev (Suc s) j) = bitrev (Suc s) (bitrev s (j div 2) + j mod 2 * 2 ^ s)"
    by simp
  also have "\<dots> = 2 * bitrev s (bitrev s (j div 2)) + j mod 2"
    by (rule bitrev_top) (simp_all add: bitrev_less)
  also have "\<dots> = j" unfolding Suc.IH [OF j2] by simp
  finally show ?case .
qed

text \<open>
  When the loop reaches \<open>i\<close>, the entries whose index or mirrored index is below \<open>i\<close> are
  exchanged with their mirror; the others are still in place.
\<close>

lemma bitrev_zero: "bitrev s 0 = 0"
  by (induction s) simp_all

lemma bitrev_eq_iff:
  assumes "a < 2 ^ s" "b < 2 ^ s"
  shows "bitrev s a = b \<longleftrightarrow> a = bitrev s b"
  using bitrev_involution [OF assms(1)] bitrev_involution [OF assms(2)] by auto

lemma bit_reversal_nth:
  assumes n: "n = 2 ^ m" and len: "n \<le> length x0" and a: "a < n"
    and i: "1 \<le> i" "i \<le> n" and j: "j = bitrev m (i - 1)"
    and lenx: "length x = length x0"
    and inv: "\<And>a. a < n \<Longrightarrow>
        x ! a = (if a < i \<or> bitrev m a < i then x0 ! bitrev m a else x0 ! a)"
  shows "bit_reversal i j n x ! a = x0 ! bitrev m a"
  using i j lenx inv
proof (induction "n - i" arbitrary: i j x)
  case 0
  then have "\<not> i < n" by simp
  then have eq: "bit_reversal i j n x = x" by (subst bit_reversal.simps) simp
  have "a < i" using 0 a by simp
  then show ?case unfolding eq using 0(6) [OF a] by simp
next
  case (Suc d)
  have lt: "i < n" using Suc.hyps(2) by arith
  obtain s where m: "m = Suc s"
  proof (cases m)
    case 0
    then show ?thesis using lt Suc.prems(1) n by simp
  next
    case (Suc s)
    then show ?thesis by (rule that)
  qed
  define j2 where "j2 = bitrev m i"
  have db: "drop_bit 1 n = 2 ^ s" unfolding n m by (simp add: drop_bit_eq_div)
  have si: "Suc (i - 1) = i" using Suc.prems(1) by simp
  have "Suc (i - 1) < 2 ^ Suc s" using lt unfolding si n m .
  then have "(case bitrev_carry (bitrev (Suc s) (i - 1)) (2 ^ s) of (j1, bitv) \<Rightarrow> j1 XOR bitv)
         = bitrev (Suc s) (Suc (i - 1))" by (rule bitrev_carry_next)
  then have cr: "(case bitrev_carry j (drop_bit 1 n) of (j1, bitv) \<Rightarrow> j1 XOR bitv) = j2"
    unfolding db j2_def si Suc.prems(3) m .
  let ?x1 = "if i < j2 then x[i := x ! j2, j2 := x ! i] else x"
  obtain j1 bitv where c: "bitrev_carry j (drop_bit 1 n) = (j1, bitv)"
    by (cases "bitrev_carry j (drop_bit 1 n)") simp
  have x2: "j1 XOR bitv = j2" using cr unfolding c by simp
  have "bit_reversal i j n x = bit_reversal (Suc i) (j1 XOR bitv) n
          (if i < j1 XOR bitv then x[i := x ! (j1 XOR bitv), j1 XOR bitv := x ! i] else x)"
    using lt c by (subst bit_reversal.simps) (simp add: Let_def)
  then have step: "bit_reversal i j n x = bit_reversal (Suc i) j2 n ?x1"
    unfolding x2 .
  have j2n: "j2 < n" unfolding j2_def n by (rule bitrev_less)
  have rj2: "bitrev m j2 = i" unfolding j2_def using lt unfolding n by (rule bitrev_involution)
  have il: "i < length x" "j2 < length x" using lt j2n len Suc.prems(4) by simp_all
  have inv': "?x1 ! b = (if b < Suc i \<or> bitrev m b < Suc i then x0 ! bitrev m b else x0 ! b)"
    if b: "b < n" for b
  proof -
    have xb: "x ! b = (if b < i \<or> bitrev m b < i then x0 ! bitrev m b else x0 ! b)"
      using b by (rule Suc.prems(5))
    have xi: "x ! i = (if j2 < i then x0 ! j2 else x0 ! i)"
      using Suc.prems(5) [OF lt] unfolding j2_def by simp
    have xj: "x ! j2 = (if j2 < i then x0 ! i else x0 ! j2)"
      using Suc.prems(5) [OF j2n] unfolding rj2 by simp
    have rb: "bitrev m b = i \<longleftrightarrow> b = j2"
      unfolding j2_def using b lt unfolding n by (rule bitrev_eq_iff)
    consider (bi) "b = i" | (bj) "b = j2" "b \<noteq> i" | (other) "b \<noteq> i" "b \<noteq> j2" by blast
    then show ?thesis
    proof cases
      case bi
      have "?x1 ! i = x0 ! j2"
      proof (cases "i < j2")
        case True
        then have "?x1 ! i = x ! j2" using il by (simp add: nth_list_update)
        then show ?thesis using xj True by simp
      next
        case False
        then have "?x1 ! i = x ! i" by simp
        then show ?thesis using xi False by (cases "j2 < i") simp_all
      qed
      then show ?thesis unfolding bi j2_def by simp
    next
      case bj
      have "?x1 ! j2 = x0 ! i"
      proof (cases "i < j2")
        case True
        then have "?x1 ! j2 = x ! i" using il by (simp add: nth_list_update)
        then show ?thesis using xi True by simp
      next
        case False
        then have l: "j2 < i" using bj by simp
        have "?x1 ! j2 = x ! j2" using False by simp
        then show ?thesis using xj l by simp
      qed
      then show ?thesis unfolding bj(1) rj2 by simp
    next
      case other
      have nr: "bitrev m b \<noteq> i" using rb other by simp
      have c: "(b < Suc i \<or> bitrev m b < Suc i) \<longleftrightarrow> (b < i \<or> bitrev m b < i)"
        using other(1) nr by arith
      have "?x1 ! b = x ! b" using other by (simp add: nth_list_update)
      then show ?thesis unfolding c xb .
    qed
  qed
  have d: "d = n - Suc i" using Suc.hyps(2) by arith
  have l1: "length ?x1 = length x0" using Suc.prems(4) by simp
  have "bit_reversal (Suc i) j2 n ?x1 ! a = x0 ! bitrev m a"
  proof (rule Suc.hyps(1) [OF d _ _ _ l1 inv'])
    show "1 \<le> Suc i" by simp
    show "Suc i \<le> n" using lt by simp
    show "j2 = bitrev m (Suc i - 1)" unfolding j2_def by simp
  qed
  then show ?case unfolding step .
qed

lemma bit_reversal_perm:
  assumes n: "n = 2 ^ m" and len: "n \<le> length x" and a: "a < n"
  shows "bit_reversal 1 0 n x ! a = x ! bitrev m a"
proof (rule bit_reversal_nth [OF n len a])
  show "1 \<le> (1::nat)" by simp
  show "1 \<le> n" unfolding n by simp
  show "0 = bitrev m (1 - 1)" by (simp add: bitrev_zero)
  show "length x = length x" ..
  fix b assume b: "b < n"
  have "bitrev m b = 0 \<longleftrightarrow> b = bitrev m 0"
    using b unfolding n by (intro bitrev_eq_iff) simp_all
  then have "bitrev m b = 0 \<longleftrightarrow> b = 0" by (simp add: bitrev_zero)
  then show "x ! b = (if b < 1 \<or> bitrev m b < 1 then x ! bitrev m b else x ! b)"
    by (auto simp add: bitrev_zero)
qed

text \<open>The closed forms of \<^verbatim>\<open>simple_fft\<close> and \<^verbatim>\<open>simple_ifft\<close>.\<close>

lemma divide_by_n_nth:
  assumes "p < length x"
  shows "divide_by_n i n x ! p = (if i \<le> p \<and> p < n then x ! p / of_nat n else x ! p)"
  using assms
proof (induction "n - i" arbitrary: i x)
  case 0
  then have "\<not> i < n" by simp
  then have eq: "divide_by_n i n x = x" by (subst divide_by_n.simps) simp
  have c: "\<not> (i \<le> p \<and> p < n)" using 0 by arith
  show ?case unfolding eq by (simp only: c if_False)
next
  case (Suc d)
  then have lt: "i < n" by arith
  let ?x1 = "x[i := x ! i / of_nat n]"
  have step: "divide_by_n i n x = divide_by_n (Suc i) n ?x1"
    using lt by (subst divide_by_n.simps) simp
  have d: "d = n - Suc i" using Suc.hyps(2) by arith
  have l1: "p < length ?x1" using Suc.prems by simp
  note ih = Suc.hyps(1) [OF d l1]
  show ?case
  proof (cases "p = i")
    case True
    then show ?thesis unfolding step ih using lt Suc.prems by simp
  next
    case False
    have c: "(Suc i \<le> p \<and> p < n) \<longleftrightarrow> (i \<le> p \<and> p < n)" using False by arith
    show ?thesis unfolding step ih c using False by simp
  qed
qed

lemma dft_of_bit_reversal:
  assumes tau: "cis (tau / 2) = - 1" and n: "n = 2 ^ m" and len: "n \<le> length x" and p: "p < n"
  shows "butterfly_stages tau 2 n (bit_reversal 1 0 n x) ! p = (\<Sum>j<n. x ! j * twiddle tau m (j * p))"
proof -
  let ?z = "bit_reversal 1 0 n x"
  have lz: "n \<le> length ?z" using len by simp
  have "butterfly_stages tau 2 n ?z ! p = (\<Sum>j<n. ?z ! bitrev m j * twiddle tau m (j * p))"
    using tau n lz p by (rule butterfly_stages_sum)
  also have "\<dots> = (\<Sum>j<n. x ! j * twiddle tau m (j * p))"
  proof (rule sum.cong)
    fix j assume "j \<in> {..<n}"
    then have j: "j < 2 ^ m" unfolding n by simp
    have "bitrev m j < n" unfolding n by (rule bitrev_less)
    then have "?z ! bitrev m j = x ! bitrev m (bitrev m j)"
      by (rule bit_reversal_perm [OF n len])
    then show "?z ! bitrev m j * twiddle tau m (j * p) = x ! j * twiddle tau m (j * p)"
      unfolding bitrev_involution [OF j] by simp
  qed simp
  finally show ?thesis .
qed

lemma simple_fft_nth:
  assumes "n = 2 ^ m" "n \<le> length x" "p < n"
  shows "simple_fft x n ! p = (\<Sum>j<n. x ! j * twiddle (2 * pi) m (j * p))"
  unfolding simple_fft_def using _ assms by (rule dft_of_bit_reversal) simp

lemma simple_ifft_nth:
  assumes "n = 2 ^ m" "n \<le> length x" "p < n"
  shows "simple_ifft x n ! p = (\<Sum>j<n. x ! j * twiddle (- 2 * pi) m (j * p)) / of_nat n"
proof -
  have t: "cis (- 2 * pi / 2) = - 1" by (simp add: cis_cnj [symmetric])
  have l: "p < length (butterfly_stages (- 2 * pi) 2 n (bit_reversal 1 0 n x))"
    using assms by simp
  show ?thesis unfolding simple_ifft_def divide_by_n_nth [OF l]
    using dft_of_bit_reversal [OF t assms] assms(3) by simp
qed

text \<open>The sum of the powers of a root of unity other than one is zero.\<close>

lemma root_of_unity_neq_1:
  assumes "j < n" "l < n" "j \<noteq> l"
  shows "cis (2 * pi * (real j - real l) / real n) \<noteq> 1"
proof
  assume "cis (2 * pi * (real j - real l) / real n) = 1"
  then have "cos (2 * pi * (real j - real l) / real n) = 1"
    by (simp add: complex_eq_iff)
  then obtain k :: int where k: "2 * pi * (real j - real l) / real n = of_int k * 2 * pi"
    unfolding cos_one_2pi_int by blast
  have n0: "real n \<noteq> 0" using assms(1) by simp
  have p2: "2 * pi \<noteq> 0" by simp
  have "2 * pi * ((real j - real l) / real n) = 2 * pi * of_int k"
    using k by (simp add: mult.commute)
  then have "(real j - real l) / real n = of_int k"
    unfolding mult_left_cancel [OF p2] .
  then have "real j - real l = of_int k * real n"
    using n0 by (simp add: field_simps)
  then have "real_of_int (int j - int l) = real_of_int (k * int n)" by simp
  then have e: "int j - int l = k * int n" by (simp only: of_int_eq_iff)
  have b: "\<bar>int j - int l\<bar> < int n" using assms(1,2) by arith
  have "k = 0"
  proof (rule ccontr)
    assume "k \<noteq> 0"
    then have "1 \<le> \<bar>k\<bar>" by arith
    then have "1 * int n \<le> \<bar>k\<bar> * int n" by (intro mult_right_mono) simp_all
    then have "int n \<le> \<bar>k * int n\<bar>" by (simp add: abs_mult)
    then show False using b e by simp
  qed
  then show False using e assms(3) by simp
qed

lemma twiddle_orthogonal:
  assumes n: "n = 2 ^ m" and j: "j < n" and l: "l < n"
  shows "(\<Sum>k<n. twiddle (2 * pi) m (j * k) * twiddle (- 2 * pi) m (k * l)) = (if j = l then of_nat n else 0)"
proof -
  define r where "r = cis (2 * pi * (real j - real l) / real n)"
  have t: "twiddle (2 * pi) m (j * k) * twiddle (- 2 * pi) m (k * l) = r ^ k" for k
  proof -
    have "2 * pi * real (j * k) / 2 ^ m + - 2 * pi * real (k * l) / 2 ^ m
        = real k * (2 * pi * (real j - real l) / real n)"
      unfolding n by (simp add: field_simps)
    then show ?thesis unfolding twiddle_def r_def cis_mult DeMoivre by simp
  qed
  have s: "(\<Sum>k<n. twiddle (2 * pi) m (j * k) * twiddle (- 2 * pi) m (k * l)) = (\<Sum>k<n. r ^ k)"
    unfolding t ..
  show ?thesis
  proof (cases "j = l")
    case True
    then have "r = 1" unfolding r_def by simp
    then show ?thesis unfolding s using True by simp
  next
    case False
    have r1: "r \<noteq> 1" unfolding r_def using j l False by (rule root_of_unity_neq_1)
    have n0: "real n \<noteq> 0" using j by simp
    have "r ^ n = cis (2 * pi * (real j - real l))"
      unfolding r_def DeMoivre using n0 by simp
    also have "\<dots> = cis (2 * pi * real_of_int (int j - int l))" by simp
    also have "\<dots> = 1" by (rule cis_multiple_2pi) simp
    finally have rn: "r ^ n = 1" .
    have "(\<Sum>k<n. r ^ k) = (r ^ n - 1) / (r - 1)" using r1 by (rule geometric_sum)
    then show ?thesis unfolding s rn using False by simp
  qed
qed

lemma ifft_fft_nth:
  assumes n: "n = 2 ^ m" and len: "length x = n" and l: "l < n"
  shows "simple_ifft (simple_fft x n) n ! l = x ! l"
proof -
  have n0: "complex_of_nat n \<noteq> 0" using l by simp
  have len1: "n \<le> length (simple_fft x n)" using len by simp
  have len0: "n \<le> length x" using len by simp
  have "(\<Sum>k<n. simple_fft x n ! k * twiddle (- 2 * pi) m (k * l))
      = (\<Sum>k<n. (\<Sum>j<n. x ! j * twiddle (2 * pi) m (j * k)) * twiddle (- 2 * pi) m (k * l))"
    by (rule sum.cong) (simp_all add: simple_fft_nth [OF n len0])
  also have "\<dots> = (\<Sum>k<n. \<Sum>j<n. x ! j * (twiddle (2 * pi) m (j * k) * twiddle (- 2 * pi) m (k * l)))"
    by (simp add: sum_distrib_right mult.assoc)
  also have "\<dots> = (\<Sum>j<n. \<Sum>k<n. x ! j * (twiddle (2 * pi) m (j * k) * twiddle (- 2 * pi) m (k * l)))"
    by (rule sum.swap)
  also have "\<dots> = (\<Sum>j<n. x ! j * (\<Sum>k<n. twiddle (2 * pi) m (j * k) * twiddle (- 2 * pi) m (k * l)))"
    by (simp add: sum_distrib_left)
  also have "\<dots> = (\<Sum>j<n. x ! j * (if j = l then of_nat n else 0))"
  proof (rule sum.cong)
    fix j assume "j \<in> {..<n}"
    then have j: "j < n" by simp
    show "x ! j * (\<Sum>k<n. twiddle (2 * pi) m (j * k) * twiddle (- 2 * pi) m (k * l))
        = x ! j * (if j = l then of_nat n else 0)"
      unfolding twiddle_orthogonal [OF n j l] ..
  qed simp
  also have "\<dots> = (\<Sum>j<n. if j = l then x ! l * of_nat n else 0)"
    by (rule sum.cong) simp_all
  also have "\<dots> = x ! l * of_nat n" using l by simp
  finally have "(\<Sum>k<n. simple_fft x n ! k * twiddle (- 2 * pi) m (k * l)) = x ! l * of_nat n" .
  then show ?thesis unfolding simple_ifft_nth [OF n len1 l] using n0 by simp
qed

lemma ifft_fft:
  assumes "length x = 2 ^ m"
  shows "simple_ifft (simple_fft x (2 ^ m)) (2 ^ m) = x"
proof (rule nth_equalityI)
  show "length (simple_ifft (simple_fft x (2 ^ m)) (2 ^ m)) = length x" by simp
next
  fix l assume "l < length (simple_ifft (simple_fft x (2 ^ m)) (2 ^ m))"
  then have "l < 2 ^ m" using assms by simp
  with refl assms show "simple_ifft (simple_fft x (2 ^ m)) (2 ^ m) ! l = x ! l"
    by (rule ifft_fft_nth)
qed

text \<open>The transform of a buffer of two entries, run through the loops.\<close>

lemma simple_fft_two: "simple_fft [3, 4] 2 = [7, - 1]"
proof -
  have c: "bitrev_carry 0 (Suc 0) = (0, Suc 0)" by (subst bitrev_carry.simps) simp
  have b2: "bit_reversal (Suc (Suc 0)) (Suc 0) 2 [3, 4] = [3, 4]"
    by (subst bit_reversal.simps) simp
  have b: "bit_reversal 1 0 2 [3, 4] = [3, 4]"
    by (subst bit_reversal.simps) (simp add: drop_bit_eq_div c b2)
  have j1: "butterfly_j (Suc 0) 2 0 (- 1) (- 1) [7, - 1] = [7, - 1]"
    by (subst butterfly_j.simps) simp
  have j0: "butterfly_j 0 2 0 1 (- 1) [3, 4] = [7, - 1]"
    by (subst butterfly_j.simps) (simp add: Let_def j1)
  have i2: "butterfly_i (Suc (Suc 0)) 2 2 (- 1) [7, - 1] = [7, - 1]"
    by (subst butterfly_i.simps) simp
  have i0: "butterfly_i 0 2 2 (- 1) [3, 4] = [7, - 1]"
    by (subst butterfly_i.simps) (simp add: j0 i2)
  have s4: "butterfly_stages (2 * pi) 4 2 [7, - 1] = [7, - 1]"
    by (subst butterfly_stages.simps) simp
  have w: "Complex (- 1) 0 = - 1" by (simp add: complex_eq_iff)
  have s2: "butterfly_stages (2 * pi) 2 2 [3, 4] = [7, - 1]"
    by (subst butterfly_stages.simps) (simp add: Let_def push_bit_eq_mult w i0 s4)
  show ?thesis unfolding simple_fft_def b s2 ..
qed

section \<open>Properties of adaptive\_filter.c\<close>

subsection \<open>The loops of nlms\_adaptive\_filter\<close>

lemma length_zero_h [simp]: "length (zero_h i n h) = length h"
  by (induction i n h rule: zero_h.induct) (subst zero_h.simps, simp)

lemma zero_h_nth:
  "j < length h \<Longrightarrow> zero_h i n h ! j = (if i \<le> j \<and> j < n then 0 else h ! j)"
proof (induction i n h rule: zero_h.induct)
  case (1 i n h)
  show ?case
  proof (cases "i < n")
    case True
    show ?thesis
    proof (cases "j = i")
      case True
      then show ?thesis using 1 \<open>i < n\<close>
        by (subst zero_h.simps) (simp add: nth_list_update)
    next
      case False
      then show ?thesis using 1 \<open>i < n\<close>
        by (subst zero_h.simps) (auto simp add: nth_list_update)
    qed
  next
    case False
    then have out: "\<not> (i \<le> j \<and> j < n)" by arith
    have eq: "zero_h i n h = h" using False by (subst zero_h.simps) simp
    show ?thesis unfolding eq by (simp only: out if_False simp_thms)
  qed
qed

lemma zero_h_replicate: "length h = n \<Longrightarrow> zero_h 0 n h = replicate n 0"
  by (rule nth_equalityI) (simp_all add: zero_h_nth)

lemma length_shift_x_buf [simp]: "length (shift_x_buf c xb) = length xb"
  by (induction c arbitrary: xb) simp_all

lemma shift_x_buf_nth:
  "c < length xb \<Longrightarrow> j < length xb \<Longrightarrow>
   shift_x_buf c xb ! j = (if 1 \<le> j \<and> j \<le> c then xb ! (j - 1) else xb ! j)"
proof (induction c arbitrary: xb)
  case 0
  then show ?case by simp
next
  case (Suc c)
  let ?xb = "xb[Suc c := xb ! c]"
  have ih: "shift_x_buf c ?xb ! j = (if 1 \<le> j \<and> j \<le> c then ?xb ! (j - 1) else ?xb ! j)"
    using Suc.IH [of ?xb] Suc.prems by simp
  have unf: "shift_x_buf (Suc c) xb ! j = shift_x_buf c ?xb ! j" by simp
  show ?case
  proof (cases "1 \<le> j \<and> j \<le> c")
    case True
    then have ne: "j - 1 \<noteq> Suc c" and t2: "1 \<le> j \<and> j \<le> Suc c" by arith+
    have "shift_x_buf c ?xb ! j = ?xb ! (j - 1)" unfolding ih by (simp only: True if_True simp_thms)
    also have "\<dots> = xb ! (j - 1)" using ne by simp
    finally show ?thesis unfolding unf by (simp only: t2 if_True simp_thms)
  next
    case False
    note n1 = this
    have "shift_x_buf c ?xb ! j = ?xb ! j" unfolding ih by (simp only: n1 if_False simp_thms)
    then have r: "shift_x_buf (Suc c) xb ! j = ?xb ! j" unfolding unf .
    show ?thesis
    proof (cases "j = Suc c")
      case True
      then have t2: "1 \<le> j \<and> j \<le> Suc c" by arith
      have "?xb ! j = xb ! c" using True Suc.prems by simp
      also have "\<dots> = xb ! (j - 1)" using True by simp
      finally show ?thesis unfolding r by (simp only: t2 if_True simp_thms)
    next
      case False
      then have n2: "\<not> (1 \<le> j \<and> j \<le> Suc c)" using n1 by arith
      have "?xb ! j = xb ! j" using False by simp
      then show ?thesis unfolding r by (simp only: n2 if_False simp_thms)
    qed
  qed
qed

lemma delay_line:
  assumes "xb \<noteq> []"
  shows "(shift_x_buf (length xb - 1) xb)[0 := xn] = xn # butlast xb"
proof (rule nth_equalityI)
  show "length ((shift_x_buf (length xb - 1) xb)[0 := xn]) = length (xn # butlast xb)"
    using assms by simp
next
  fix j assume "j < length ((shift_x_buf (length xb - 1) xb)[0 := xn])"
  then have j: "j < length xb" by simp
  have c: "length xb - 1 < length xb" using assms by simp
  show "(shift_x_buf (length xb - 1) xb)[0 := xn] ! j = (xn # butlast xb) ! j"
  proof (cases j)
    case 0
    then show ?thesis using assms by simp
  next
    case (Suc k)
    then have k: "k < length xb - 1" using j by arith
    have "(shift_x_buf (length xb - 1) xb)[0 := xn] ! j = shift_x_buf (length xb - 1) xb ! j"
      using Suc by simp
    also have "\<dots> = xb ! (j - 1)"
    proof -
      have cond: "1 \<le> j \<and> j \<le> length xb - 1" using Suc j by arith
      show ?thesis by (simp only: shift_x_buf_nth [OF c j] cond if_True simp_thms)
    qed
    also have "\<dots> = xb ! k" using Suc by simp
    also have "\<dots> = butlast xb ! k" using k by (simp add: nth_butlast)
    finally show ?thesis using Suc by simp
  qed
qed

lemma y_hat_loop_sum:
  "i \<le> n \<Longrightarrow> y_hat_loop i n h xb acc = acc + (\<Sum>k = i..<n. h ! k * xb ! k)"
proof (induction i n h xb acc rule: y_hat_loop.induct)
  case (1 i n h xb acc)
  show ?case
  proof (cases "i < n")
    case True
    have "y_hat_loop i n h xb acc = y_hat_loop (Suc i) n h xb (acc + h ! i * xb ! i)"
      using True by (subst y_hat_loop.simps) simp
    also have "\<dots> = acc + h ! i * xb ! i + (\<Sum>k = Suc i..<n. h ! k * xb ! k)"
      using 1(1) [OF True] True by simp
    also have "\<dots> = acc + (\<Sum>k = i..<n. h ! k * xb ! k)"
      using True by (simp add: sum.atLeast_Suc_lessThan)
    finally show ?thesis .
  next
    case False
    then show ?thesis using 1(2) by (subst y_hat_loop.simps) simp
  qed
qed

lemma x_power_loop_sum:
  "i \<le> n \<Longrightarrow> x_power_loop i n xb acc = acc + (\<Sum>k = i..<n. xb ! k * xb ! k)"
proof (induction i n xb acc rule: x_power_loop.induct)
  case (1 i n xb acc)
  show ?case
  proof (cases "i < n")
    case True
    have "x_power_loop i n xb acc = x_power_loop (Suc i) n xb (acc + xb ! i * xb ! i)"
      using True by (subst x_power_loop.simps) simp
    also have "\<dots> = acc + xb ! i * xb ! i + (\<Sum>k = Suc i..<n. xb ! k * xb ! k)"
      using 1(1) [OF True] True by simp
    also have "\<dots> = acc + (\<Sum>k = i..<n. xb ! k * xb ! k)"
      using True by (simp add: sum.atLeast_Suc_lessThan)
    finally show ?thesis .
  next
    case False
    then show ?thesis using 1(2) by (subst x_power_loop.simps) simp
  qed
qed

lemma length_update_h [simp]: "length (update_h i n h step e xb) = length h"
  by (induction i n h step e xb rule: update_h.induct) (subst update_h.simps, simp)

lemma update_h_nth:
  "j < length h \<Longrightarrow>
   update_h i n h step e xb ! j =
     (if i \<le> j \<and> j < n then h ! j + step * e * xb ! j else h ! j)"
proof (induction i n h step e xb rule: update_h.induct)
  case (1 i n h step e xb)
  show ?case
  proof (cases "i < n")
    case True
    show ?thesis
    proof (cases "j = i")
      case True
      then show ?thesis using 1 \<open>i < n\<close>
        by (subst update_h.simps) (simp add: nth_list_update)
    next
      case False
      then show ?thesis using 1 \<open>i < n\<close>
        by (subst update_h.simps) (auto simp add: nth_list_update)
    qed
  next
    case False
    then have out: "\<not> (i \<le> j \<and> j < n)" by arith
    have eq: "update_h i n h step e xb = h" using False by (subst update_h.simps) simp
    show ?thesis unfolding eq by (simp only: out if_False simp_thms)
  qed
qed

lemma update_h_map2:
  assumes "length h = n" "length xb = n"
  shows "update_h 0 n h step e xb = map2 (\<lambda>hi xi. hi + step * e * xi) h xb"
  using assms by (intro nth_equalityI) (simp_all add: update_h_nth)

subsection \<open>The filter against its specification\<close>

lemma nlms_sample_spec:
  assumes "0 < filter_len" "length (fst state) = filter_len" "length (snd state) = filter_len"
  shows "nlms_sample xn yn filter_len mu beta state = nlms_spec_step mu beta xn yn state"
proof -
  let ?h = "fst state" and ?xb = "xn # butlast (snd state)"
  have ne: "snd state \<noteq> []" using assms by auto
  have xb: "(shift_x_buf (filter_len - 1) (snd state))[0 := xn] = ?xb"
    using delay_line [OF ne, of xn] assms(3) by simp
  have lxb: "length ?xb = filter_len" using assms ne by simp
  have yh: "y_hat_loop 0 filter_len ?h ?xb 0 = (\<Sum>i = 0..<length ?h. ?h ! i * ?xb ! i)"
    using y_hat_loop_sum [of 0 filter_len ?h ?xb 0] assms(2) by simp
  have xp: "x_power_loop 0 filter_len ?xb beta = beta + (\<Sum>i = 0..<length ?h. ?xb ! i * ?xb ! i)"
    using x_power_loop_sum [of 0 filter_len ?xb beta] assms(2) by simp
  have up: "update_h 0 filter_len ?h step e ?xb = map2 (\<lambda>hi xi. hi + step * e * xi) ?h ?xb"
    for step e
    using update_h_map2 [OF assms(2) lxb] .
  show ?thesis
    unfolding nlms_sample_def nlms_spec_step_def xb yh xp up Let_def ..
qed

lemma nlms_spec_step_lengths:
  assumes "0 < filter_len" "length (fst state) = filter_len" "length (snd state) = filter_len"
  shows "length (fst (nlms_spec_step mu beta xn yn state)) = filter_len \<and>
         length (snd (nlms_spec_step mu beta xn yn state)) = filter_len"
proof -
  have "snd state \<noteq> []" using assms by auto
  then have "length (xn # butlast (snd state)) = filter_len" using assms by simp
  then show ?thesis using assms(2) by (simp add: nlms_spec_step_def Let_def)
qed

lemma nlms_loop_spec:
  assumes "0 < filter_len" "x_len \<le> length x" "x_len \<le> length y"
    and "length (fst state) = filter_len" "length (snd state) = filter_len"
  shows "nlms_loop n x_len x y filter_len mu beta state =
           Inr (fst (nlms_spec_run mu beta (take (x_len - n) (drop n x))
                       (take (x_len - n) (drop n y)) state))"
  using assms
proof (induction n x_len x y filter_len mu beta state rule: nlms_loop.induct)
  case (1 n x_len x y filter_len mu beta state)
  show ?case
  proof (cases "n < x_len")
    case True
    have nx: "n < length x" and ny: "n < length y" using True 1(3,4) by arith+
    let ?s = "nlms_sample (x ! n) (y ! n) filter_len mu beta state"
    have s: "?s = nlms_spec_step mu beta (x ! n) (y ! n) state"
      using 1(2,5,6) by (rule nlms_sample_spec)
    have ls: "length (fst ?s) = filter_len" "length (snd ?s) = filter_len"
      unfolding s using nlms_spec_step_lengths [OF 1(2,5,6)] by simp_all
    have g: "\<not> (length x \<le> n \<or> length y \<le> n \<or> filter_len = 0)"
      using nx ny 1(2) by simp
    have step: "nlms_loop n x_len x y filter_len mu beta state =
                nlms_loop (Suc n) x_len x y filter_len mu beta ?s"
      using True g by (subst nlms_loop.simps) simp
    have ih: "nlms_loop (Suc n) x_len x y filter_len mu beta ?s =
           Inr (fst (nlms_spec_run mu beta (take (x_len - Suc n) (drop (Suc n) x))
                       (take (x_len - Suc n) (drop (Suc n) y)) ?s))"
      using 1(1) [OF True g 1(2,3,4) ls] .
    have d: "x_len - n = Suc (x_len - Suc n)" using True by arith
    have tx: "take (x_len - n) (drop n x) = x ! n # take (x_len - Suc n) (drop (Suc n) x)"
      unfolding d using nx by (simp add: Cons_nth_drop_Suc [symmetric])
    have ty: "take (x_len - n) (drop n y) = y ! n # take (x_len - Suc n) (drop (Suc n) y)"
      unfolding d using ny by (simp add: Cons_nth_drop_Suc [symmetric])
    have "Inr (fst (nlms_spec_run mu beta (take (x_len - Suc n) (drop (Suc n) x))
                       (take (x_len - Suc n) (drop (Suc n) y)) ?s)) =
          (Inr (fst (nlms_spec_run mu beta (take (x_len - n) (drop n x))
                       (take (x_len - n) (drop n y)) state)) :: fault + real list)"
      unfolding tx ty s by simp
    then show ?thesis using step ih by simp
  next
    case False
    then have "x_len - n = 0" by simp
    then show ?thesis using False by (subst nlms_loop.simps) simp
  qed
qed

text \<open>
  Claim C9. For a positive filter length and input buffers of at least \<open>x_len\<close>
  entries, \<^verbatim>\<open>nlms_adaptive_filter\<close> returns what the specification's filter
  \<open>nlms_spec\<close> computes on the first \<open>x_len\<close> samples: zero start, prediction, error,
  power, and the update under \<open>P > 1e-10\<close> or no change of \<open>h\<close> otherwise.
\<close>

theorem nlms_adaptive_filter_spec:
  assumes "0 < filter_len" "x_len \<le> length x" "x_len \<le> length y" "length h = filter_len"
  shows "nlms_adaptive_filter x y x_len filter_len h mu beta =
           Inr (nlms_spec (take x_len x) (take x_len y) filter_len mu beta)"
proof -
  have z: "zero_h 0 filter_len h = replicate filter_len 0"
    using assms(4) by (rule zero_h_replicate)
  have "nlms_loop 0 x_len x y filter_len mu beta (replicate filter_len 0, replicate filter_len 0) =
        Inr (fst (nlms_spec_run mu beta (take (x_len - 0) (drop 0 x)) (take (x_len - 0) (drop 0 y))
               (replicate filter_len 0, replicate filter_len 0)))"
    using assms(1-3) by (intro nlms_loop_spec) simp_all
  then show ?thesis
    using assms(4) by (simp add: nlms_adaptive_filter_def nlms_spec_def z)
qed

text \<open>
  The theorem on two samples with \<open>filter_len = 2\<close>, \<open>mu = 1/2\<close>, \<open>beta = 0\<close>: both
  samples update \<open>h\<close>. On one silent sample the power is \<open>0\<close> and \<open>h\<close> stays zero.
\<close>

theorem nlms_adaptive_filter_spec_witness:
  "nlms_adaptive_filter [1, 0] [1 / 2, 1 / 4] 2 2 [7, 7] (1 / 2) 0 = Inr [1 / 4, 1 / 8] \<and>
   nlms_spec [1, 0] [1 / 2, 1 / 4] 2 (1 / 2) 0 = [1 / 4, 1 / 8] \<and>
   nlms_adaptive_filter [0] [1] 1 2 [7, 7] (1 / 2) 0 = Inr [0, 0]"
proof -
  have a: "nlms_spec [1, 0] [1 / 2, 1 / 4] 2 (1 / 2) 0 = [1 / 4, 1 / 8]"
    by (simp add: nlms_spec_def nlms_spec_step_def Let_def numeral_2_eq_2)
  have b: "nlms_spec [0] [1] 2 (1 / 2) 0 = [0, 0]"
    by (simp add: nlms_spec_def nlms_spec_step_def Let_def numeral_2_eq_2)
  have "nlms_adaptive_filter [1, 0] [1 / 2, 1 / 4] 2 2 [7, 7] (1 / 2) 0 = Inr [1 / 4, 1 / 8]"
    using nlms_adaptive_filter_spec [of 2 2 "[1, 0]" "[1 / 2, 1 / 4]" "[7, 7]" "1 / 2" 0] a
    by simp
  moreover have "nlms_adaptive_filter [0] [1] 1 2 [7, 7] (1 / 2) 0 = Inr [0, 0]"
    using nlms_adaptive_filter_spec [of 2 1 "[0]" "[1]" "[7, 7]" "1 / 2" 0] b
    by simp
  ultimately show ?thesis using a by simp
qed

end
